theory Spec2Isabelle
  imports Main
begin

section \<open>JavaScript values and strings\<close>

text \<open>
  The hashtag pipeline (\<^verbatim>\<open>src/services/hashtag-service.js\<close>, \<^verbatim>\<open>src/utils/tag-utils.js\<close>) and
  the streaming branch of the completion service (\<^verbatim>\<open>src/unnamed/part_007\<close>) are embedded as
  HOL functions. A JavaScript string is a \<^typ>\<open>string\<close>: one \<^typ>\<open>char\<close> per code unit, so
  the embedding covers the strings whose code units are below 256 (ASCII and Latin-1).
  On that range \<^verbatim>\<open>String.prototype.trim\<close> and the regular expression class \<^verbatim>\<open>\s\<close> remove
  or match the code units 9 to 13, 32 and 160, and \<^verbatim>\<open>toLowerCase\<close> adds 32 to the code
  units of A to Z and of the Latin-1 capitals 192 to 222 (215, the multiplication sign, is
  not a letter).
\<close>

definition isWhiteSpace :: "char \<Rightarrow> bool" where
  "isWhiteSpace c \<longleftrightarrow>
     c \<in> set [CHR 0x09, CHR 0x0A, CHR 0x0B, CHR 0x0C, CHR 0x0D, CHR 0x20, CHR 0xA0]"

definition trim :: "string \<Rightarrow> string" where
  "trim s = rev (dropWhile isWhiteSpace (rev (dropWhile isWhiteSpace s)))"

definition isUpperChar :: "char \<Rightarrow> bool" where
  "isUpperChar c \<longleftrightarrow> (let n = (of_char c :: nat) in
     (65 \<le> n \<and> n \<le> 90) \<or> (192 \<le> n \<and> n \<le> 222 \<and> n \<noteq> 215))"

definition toLowerChar :: "char \<Rightarrow> char" where
  "toLowerChar c = (if isUpperChar c then char_of (of_char c + (32::nat)) else c)"

definition toLowerCase :: "string \<Rightarrow> string" where
  "toLowerCase s = map toLowerChar s"

definition newline :: char where
  "newline = CHR 0x0A"

text \<open>\<^verbatim>\<open>s.startsWith('#')\<close>, \<^verbatim>\<open>s.replace(/^#/, '')\<close> and \<^verbatim>\<open>s.replace(/^#+/, '')\<close>.\<close>

definition startsWithHash :: "string \<Rightarrow> bool" where
  "startsWithHash s = (case s of [] \<Rightarrow> False | c # _ \<Rightarrow> c = CHR ''#'')"

definition stripHash :: "string \<Rightarrow> string" where
  "stripHash s = (case s of [] \<Rightarrow> [] | c # cs \<Rightarrow> if c = CHR ''#'' then cs else s)"

definition stripHashes :: "string \<Rightarrow> string" where
  "stripHashes s = dropWhile (\<lambda>c. c = CHR ''#'') s"

text \<open>
  The values the functions receive are plain data: what \<^verbatim>\<open>JSON.parse\<close> or a socket payload
  decodes to, and \<^verbatim>\<open>undefined\<close>. A number is kept as the two observations the code makes
  of one: whether it is truthy (neither zero nor NaN) and its decimal rendering. An object
  holds its own properties, with distinct keys, in the engine's enumeration order.
\<close>

datatype jsval =
    JUndefined
  | JNull
  | JBool bool
  | JNum bool string
  | JStr string
  | JArr "jsval list"
  | JObj "(string \<times> jsval) list"

datatype exn = TypeError | SyntaxError | DbError

fun truthy :: "jsval \<Rightarrow> bool" where
  "truthy JUndefined = False"
| "truthy JNull = False"
| "truthy (JBool b) = b"
| "truthy (JNum nz _) = nz"
| "truthy (JStr s) = (s \<noteq> [])"
| "truthy (JArr _) = True"
| "truthy (JObj _) = True"

text \<open>\<^verbatim>\<open>typeof v === 'object'\<close> holds of \<^verbatim>\<open>null\<close>, arrays and objects.\<close>

fun typeofObject :: "jsval \<Rightarrow> bool" where
  "typeofObject JNull = True"
| "typeofObject (JArr _) = True"
| "typeofObject (JObj _) = True"
| "typeofObject _ = False"

text \<open>
  Reading a property \<^verbatim>\<open>v.k\<close> for a key that no prototype defines (\<^verbatim>\<open>name\<close>,
  \<^verbatim>\<open>response\<close>, \<^verbatim>\<open>done\<close>): a TypeError on \<^verbatim>\<open>null\<close> and \<^verbatim>\<open>undefined\<close>, the own
  property of an object, \<^verbatim>\<open>undefined\<close> otherwise.
\<close>

fun getProp :: "jsval \<Rightarrow> string \<Rightarrow> exn + jsval" where
  "getProp JUndefined k = Inl TypeError"
| "getProp JNull k = Inl TypeError"
| "getProp (JObj kvs) k = (case map_of kvs k of None \<Rightarrow> Inr JUndefined | Some v \<Rightarrow> Inr v)"
| "getProp _ k = Inr JUndefined"

text \<open>
  Conversion to a string, as \<^verbatim>\<open>String(v)\<close>, a template literal and \<^verbatim>\<open>s += v\<close> perform it.
  An array joins its elements with commas, \<^verbatim>\<open>null\<close> and \<^verbatim>\<open>undefined\<close> elements giving
  the empty string. A data object prints as \<^verbatim>\<open>[object Object]\<close> through the inherited
  \<^verbatim>\<open>toString\<close>; an own property of that name is not callable, and the conversion throws.
\<close>

fun js_String :: "jsval \<Rightarrow> exn + string"
  and js_join :: "jsval list \<Rightarrow> exn + string" where
  "js_String JUndefined = Inr ''undefined''"
| "js_String JNull = Inr ''null''"
| "js_String (JBool b) = Inr (if b then ''true'' else ''false'')"
| "js_String (JNum _ t) = Inr t"
| "js_String (JStr s) = Inr s"
| "js_String (JArr xs) = js_join xs"
| "js_String (JObj kvs) =
     (if ''toString'' \<in> set (map fst kvs) then Inl TypeError else Inr ''[object Object]'')"
| "js_join [] = Inr []"
| "js_join (x # xs) =
     (case (if x = JUndefined \<or> x = JNull then Inr [] else js_String x) of
        Inl e \<Rightarrow> Inl e
      | Inr s \<Rightarrow> (if xs = [] then Inr s
                 else (case js_join xs of Inl e \<Rightarrow> Inl e | Inr t \<Rightarrow> Inr (s @ '','' @ t))))"

text \<open>\<^verbatim>\<open>xs.map(f)\<close> where the callback may throw: the first exception leaves the map.\<close>

fun map_exn :: "('a \<Rightarrow> exn + 'b) \<Rightarrow> 'a list \<Rightarrow> exn + 'b list" where
  "map_exn f [] = Inr []"
| "map_exn f (x # xs) =
     (case f x of
        Inl e \<Rightarrow> Inl e
      | Inr y \<Rightarrow> (case map_exn f xs of Inl e \<Rightarrow> Inl e | Inr ys \<Rightarrow> Inr (y # ys)))"

section \<open>The tag normalizer: formatHashtags\<close>

text \<open>
  \<^verbatim>\<open>formatHashtags\<close> of \<^verbatim>\<open>hashtag-service.js\<close>. The callback of its \<^verbatim>\<open>map\<close> is
  \<open>formatTag\<close>: a string is trimmed, loses all its leading \<^verbatim>\<open>#\<close> and gets one back unless
  nothing is left; an object with a truthy \<^verbatim>\<open>name\<close> is treated through that name (a name
  that is not a string has no \<^verbatim>\<open>trim\<close> method: TypeError); any other truthy value is
  converted to a string first. The final \<^verbatim>\<open>filter\<close> drops the results of length at most 1.
\<close>

definition formatClean :: "string \<Rightarrow> string" where
  "formatClean s = (let cleanTag = stripHashes (trim s) in
     if cleanTag \<noteq> [] then CHR ''#'' # cleanTag else [])"

definition formatTag :: "jsval \<Rightarrow> exn + string" where
  "formatTag tag =
     (case tag of
        JStr s \<Rightarrow> Inr (formatClean s)
      | _ \<Rightarrow>
        (case (if truthy tag \<and> typeofObject tag then getProp tag ''name'' else Inr JUndefined) of
           Inl e \<Rightarrow> Inl e
         | Inr nm \<Rightarrow>
           if truthy nm then
             (case nm of JStr n \<Rightarrow> Inr (formatClean n) | _ \<Rightarrow> Inl TypeError)
           else if truthy tag then
             (case js_String tag of
                Inl e \<Rightarrow> Inl e
              | Inr s \<Rightarrow> Inr (CHR ''#'' # stripHashes (trim s)))
           else Inr []))"

definition formatHashtags :: "jsval \<Rightarrow> exn + string list" where
  "formatHashtags hashtags =
     (case hashtags of
        JArr xs \<Rightarrow>
          (case map_exn formatTag xs of
             Inl e \<Rightarrow> Inl e
           | Inr ys \<Rightarrow> Inr (filter (\<lambda>t. t \<noteq> [] \<and> length t > 1) ys))
      | _ \<Rightarrow> Inr [])"

section \<open>The tag reuse resolver: processHashtags\<close>

text \<open>
  \<^verbatim>\<open>src/utils/tag-utils.js\<close>. The two tables the resolver reads are the results of its two
  queries, each of which may be rejected: \<open>blocked_tags\<close> is the column \<^verbatim>\<open>tag_name\<close> of
  \<^verbatim>\<open>blocked_tags\<close>, \<open>tag_synonyms\<close> the pairs \<^verbatim>\<open>(original_tag, better_tag)\<close> of
  \<^verbatim>\<open>tag_synonyms\<close>, in row order.
\<close>

record db =
  blocked_tags :: "exn + string list"
  tag_synonyms :: "exn + (string \<times> string) list"

definition prefixHash :: "string \<Rightarrow> string" where
  "prefixHash cleanTag = (if startsWithHash cleanTag then cleanTag else CHR ''#'' # cleanTag)"

text \<open>
  The callback of the first \<^verbatim>\<open>map\<close> (lines 16 to 26), inside the \<^verbatim>\<open>try\<close>: a string is
  trimmed and prefixed; an object with a truthy \<^verbatim>\<open>name\<close> goes through its name, which
  must be a string to have a \<^verbatim>\<open>trim\<close> method; anything else is converted to a string.
\<close>

definition normalizeTag :: "jsval \<Rightarrow> exn + string" where
  "normalizeTag tag =
     (case tag of
        JStr s \<Rightarrow> Inr (prefixHash (trim s))
      | _ \<Rightarrow>
        (case (if truthy tag \<and> typeofObject tag then getProp tag ''name'' else Inr JUndefined) of
           Inl e \<Rightarrow> Inl e
         | Inr nm \<Rightarrow>
           if truthy nm then
             (case nm of JStr n \<Rightarrow> Inr (prefixHash (trim n)) | _ \<Rightarrow> Inl TypeError)
           else
             (case js_String tag of
                Inl e \<Rightarrow> Inl e
              | Inr s \<Rightarrow> Inr (CHR ''#'' # trim s))))"

text \<open>The callback of the \<^verbatim>\<open>map\<close> in the \<^verbatim>\<open>catch\<close> branch (lines 86 to 91).\<close>

definition fallbackTag :: "jsval \<Rightarrow> exn + string" where
  "fallbackTag tag =
     (case tag of
        JStr s \<Rightarrow> Inr (if startsWithHash (trim s) then trim s else CHR ''#'' # trim s)
      | _ \<Rightarrow>
        (case js_String tag of
           Inl e \<Rightarrow> Inl e
         | Inr s \<Rightarrow> Inr (CHR ''#'' # trim s)))"

text \<open>
  \<^verbatim>\<open>tagSynonyms\<close> is a plain object filled by assignment: a later row replaces an earlier
  one with the same lower-cased key, and an assignment of a string to the key
  \<^verbatim>\<open>__proto__\<close> changes nothing. \<^verbatim>\<open>tagSynonyms[cleanTag]\<close> reads an own property or,
  failing that, the prototype: of the properties of \<^verbatim>\<open>Object.prototype\<close> only
  \<^verbatim>\<open>constructor\<close> and \<^verbatim>\<open>__proto__\<close> are spelt in lower case, and in the template literal
  of line 67 they print as the text of the \<^verbatim>\<open>Object\<close> function and as \<^verbatim>\<open>[object Object]\<close>.
  The result is \<open>None\<close> when the value read is falsy.
\<close>

definition buildSynonyms :: "(string \<times> string) list \<Rightarrow> (string \<rightharpoonup> string)" where
  "buildSynonyms rows =
     foldl (\<lambda>m (original_tag, better_tag).
              if toLowerCase original_tag = ''__proto__'' then m
              else m(toLowerCase original_tag \<mapsto> better_tag))
           Map.empty rows"

definition lookupSynonym :: "(string \<rightharpoonup> string) \<Rightarrow> string \<Rightarrow> string option" where
  "lookupSynonym tagSynonyms cleanTag =
     (case tagSynonyms cleanTag of
        Some better_tag \<Rightarrow> (if better_tag \<noteq> [] then Some better_tag else None)
      | None \<Rightarrow>
          if cleanTag = ''constructor'' then Some ''function Object() { [native code] }''
          else if cleanTag = ''__proto__'' then Some ''[object Object]''
          else None)"

text \<open>
  The loop of lines 47 to 74, with \<^verbatim>\<open>processedTags\<close> and \<^verbatim>\<open>seenTags\<close> passed along.
  \<open>cleanTagOf\<close> is line 49 and \<open>bestTagOf\<close> lines 58 to 67.
\<close>

definition cleanTagOf :: "string \<Rightarrow> string" where
  "cleanTagOf tag = toLowerCase (trim (stripHash tag))"

definition bestTagOf :: "(string \<rightharpoonup> string) \<Rightarrow> string \<Rightarrow> string" where
  "bestTagOf tagSynonyms cleanTag =
     (case lookupSynonym tagSynonyms cleanTag of Some better_tag \<Rightarrow> better_tag | None \<Rightarrow> cleanTag)"

fun resolveLoop ::
  "string list \<Rightarrow> (string \<rightharpoonup> string) \<Rightarrow> string list \<Rightarrow> string list \<Rightarrow> string list
     \<Rightarrow> string list" where
  "resolveLoop blockedTags tagSynonyms [] processedTags seenTags = processedTags"
| "resolveLoop blockedTags tagSynonyms (tag # tags) processedTags seenTags =
     (let cleanTag = cleanTagOf tag in
      if cleanTag \<in> set blockedTags then
        resolveLoop blockedTags tagSynonyms tags processedTags seenTags
      else
        (let formattedTag = CHR ''#'' # bestTagOf tagSynonyms cleanTag in
         if toLowerCase formattedTag \<notin> set seenTags then
           resolveLoop blockedTags tagSynonyms tags (processedTags @ [formattedTag])
             (toLowerCase formattedTag # seenTags)
         else resolveLoop blockedTags tagSynonyms tags processedTags seenTags))"

text \<open>
  The body of the \<^verbatim>\<open>try\<close> of \<^verbatim>\<open>originalProcessHashtags\<close>, its \<^verbatim>\<open>catch\<close>, and the function
  itself, which its only caller gives an array.
\<close>

definition tryResolve :: "db \<Rightarrow> jsval list \<Rightarrow> exn + string list" where
  "tryResolve d hashtags =
     (case map_exn normalizeTag hashtags of
        Inl e \<Rightarrow> Inl e
      | Inr ts \<Rightarrow>
        (let normalizedTags = filter (\<lambda>tag. length tag > 1) ts in
         case blocked_tags d of
           Inl e \<Rightarrow> Inl e
         | Inr blockedTagsResults \<Rightarrow>
           (case tag_synonyms d of
              Inl e \<Rightarrow> Inl e
            | Inr tagSynonymsResults \<Rightarrow>
              (let processedTags =
                     resolveLoop (map toLowerCase blockedTagsResults)
                       (buildSynonyms tagSynonymsResults) normalizedTags [] []
               in Inr (if processedTags = [] \<and> normalizedTags \<noteq> [] then [''#conversation'']
                       else processedTags)))))"

definition fallbackResolve :: "jsval list \<Rightarrow> exn + string list" where
  "fallbackResolve hashtags =
     (case map_exn fallbackTag hashtags of
        Inl e \<Rightarrow> Inl e
      | Inr ts \<Rightarrow> Inr (filter (\<lambda>tag. length tag > 1) ts))"

definition originalProcessHashtags :: "db \<Rightarrow> jsval list \<Rightarrow> exn + string list" where
  "originalProcessHashtags d hashtags =
     (if hashtags = [] then Inr []
      else (case tryResolve d hashtags of
              Inr processedTags \<Rightarrow> Inr processedTags
            | Inl _ \<Rightarrow> fallbackResolve hashtags))"

text \<open>
  The exported wrapper (lines 98 to 124). Its second diagnostic line (line 100) builds a
  template literal from \<^verbatim>\<open>typeof hashtags\<close>, \<^verbatim>\<open>Array.isArray(hashtags)\<close> and
  \<^verbatim>\<open>hashtags?.length || 'N/A'\<close>, before any test of the argument and outside the \<^verbatim>\<open>try\<close>.
  The length of a string or of an array is a number, an object has the \<^verbatim>\<open>length\<close> it
  owns, any other value has none. The conversion of that value to a string can throw, and
  the exception leaves the wrapper.
\<close>

fun decimal :: "nat \<Rightarrow> string" where
  "decimal n =
     (if n < 10 then [char_of (48 + n)] else decimal (n div 10) @ [char_of (48 + n mod 10)])"

declare decimal.simps [simp del]

fun typeofName :: "jsval \<Rightarrow> string" where
  "typeofName JUndefined = ''undefined''"
| "typeofName JNull = ''object''"
| "typeofName (JBool _) = ''boolean''"
| "typeofName (JNum _ _) = ''number''"
| "typeofName (JStr _) = ''string''"
| "typeofName (JArr _) = ''object''"
| "typeofName (JObj _) = ''object''"

definition lengthOf :: "jsval \<Rightarrow> jsval" where
  "lengthOf hashtags =
     (case hashtags of
        JStr s \<Rightarrow> JNum (s \<noteq> []) (decimal (length s))
      | JArr xs \<Rightarrow> JNum (xs \<noteq> []) (decimal (length xs))
      | JObj kvs \<Rightarrow> (case map_of kvs ''length'' of Some l \<Rightarrow> l | None \<Rightarrow> JUndefined)
      | _ \<Rightarrow> JUndefined)"

definition diagnosticLine :: "jsval \<Rightarrow> exn + string" where
  "diagnosticLine hashtags =
     (case js_String (if truthy (lengthOf hashtags) then lengthOf hashtags else JStr ''N/A'') of
        Inl e \<Rightarrow> Inl e
      | Inr len \<Rightarrow>
          Inr (''Type: '' @ typeofName hashtags
               @ '', isArray: '' @ (case hashtags of JArr _ \<Rightarrow> ''true'' | _ \<Rightarrow> ''false'')
               @ '', length: '' @ len))"

text \<open>
  After the diagnostics a falsy argument returns the empty array; a string becomes a
  one-element array, an object the array of its truthy property values, any other value
  that is not an array the empty array. An exception that leaves
  \<^verbatim>\<open>originalProcessHashtags\<close> is caught and the array is returned as it is.
\<close>

definition toArray :: "jsval \<Rightarrow> jsval list" where
  "toArray hashtags =
     (case hashtags of
        JArr xs \<Rightarrow> xs
      | JStr s \<Rightarrow> [JStr s]
      | JObj kvs \<Rightarrow> filter truthy (map snd kvs)
      | _ \<Rightarrow> [])"

definition processHashtags :: "db \<Rightarrow> jsval \<Rightarrow> exn + jsval list" where
  "processHashtags d hashtags =
     (case diagnosticLine hashtags of
        Inl e \<Rightarrow> Inl e
      | Inr _ \<Rightarrow>
          if \<not> truthy hashtags then Inr []
          else (case originalProcessHashtags d (toArray hashtags) of
                  Inr result \<Rightarrow> Inr (map JStr result)
                | Inl _ \<Rightarrow> Inr (toArray hashtags)))"

text \<open>
  What the resolver computes on an array of strings, written without the loop: the
  normalized candidates of lines 16 to 26, the candidates that are not blocked with one
  lookup of the synonym table each, and the removal of the tags already seen.
\<close>

definition normalizedStrings :: "string list \<Rightarrow> string list" where
  "normalizedStrings xs = filter (\<lambda>tag. length tag > 1) (map (\<lambda>s. prefixHash (trim s)) xs)"

definition substituteOnce ::
  "string list \<Rightarrow> (string \<rightharpoonup> string) \<Rightarrow> string list \<Rightarrow> string list" where
  "substituteOnce blockedTags tagSynonyms normalizedTags =
     map (\<lambda>tag. CHR ''#'' # bestTagOf tagSynonyms (cleanTagOf tag))
       (filter (\<lambda>tag. cleanTagOf tag \<notin> set blockedTags) normalizedTags)"

fun dedupSeen :: "string list \<Rightarrow> string list \<Rightarrow> string list" where
  "dedupSeen seenTags [] = []"
| "dedupSeen seenTags (t # ts) =
     (if toLowerCase t \<in> set seenTags then dedupSeen seenTags ts
      else t # dedupSeen (toLowerCase t # seenTags) ts)"

definition resolved :: "string list \<Rightarrow> (string \<times> string) list \<Rightarrow> string list \<Rightarrow> string list" where
  "resolved blockedRows synonymRows xs =
     (let processedTags =
            dedupSeen [] (substituteOnce (map toLowerCase blockedRows)
              (buildSynonyms synonymRows) (normalizedStrings xs))
      in if processedTags = [] \<and> normalizedStrings xs \<noteq> [] then [''#conversation'']
         else processedTags)"

section \<open>The exclusion filter and the entity extractor\<close>

text \<open>\<^verbatim>\<open>src/services/hashtag-service.js\<close>: the list of line 7 and \<^verbatim>\<open>shouldExcludeWord\<close>.\<close>

definition COMMON_WORDS_TO_EXCLUDE :: "string list" where
  "COMMON_WORDS_TO_EXCLUDE = [
    ''a'', ''about'', ''above'', ''after'', ''again'', ''against'', ''all'', ''almost'',
    ''along'', ''already'', ''also'', ''although'', ''always'', ''am'', ''among'', ''an'',
    ''and'', ''another'', ''any'', ''anybody'', ''anyone'', ''anything'', ''anywhere'',
    ''are'', ''are not'', ''around'', ''as'', ''at'', ''back'', ''be'', ''because'',
    ''been'', ''before'', ''being'', ''below'', ''between'', ''both'', ''but'', ''by'',
    ''can'', ''cannot'', ''could'', ''could not'', ''did'', ''did not'', ''do'', ''does'',
    ''does not'', ''doing'', ''do not'', ''down'', ''during'', ''each'', ''either'',
    ''else'', ''enough'', ''even'', ''ever'', ''every'', ''everybody'', ''everyone'',
    ''everything'', ''everywhere'', ''except'', ''few'', ''for'', ''from'', ''further'',
    ''get'', ''gets'', ''getting'', ''give'', ''given'', ''gives'', ''go'', ''goes'',
    ''going'', ''gone'', ''got'', ''gotten'', ''had'', ''had not'', ''has'', ''has not'',
    ''have'', ''have not'', ''having'', ''he'', ''he would'', ''he will'', ''he is'',
    ''her'', ''here'', ''here is'', ''hers'', ''herself'', ''him'', ''himself'', ''his'',
    ''how'', ''how is'', ''however'', ''i'', ''i would'', ''i will'', ''i am'', ''i have'',
    ''if'', ''in'', ''inside'', ''instead'', ''into'', ''is'', ''is not'', ''it'',
    ''it is'', ''its'', ''itself'', ''just'', ''keep'', ''keeps'', ''kept'', ''kind'',
    ''knew'', ''know'', ''known'', ''knows'', ''last'', ''later'', ''least'', ''less'',
    ''let'', ''let us'', ''like'', ''likely'', ''long'', ''made'', ''make'', ''makes'',
    ''making'', ''many'', ''may'', ''maybe'', ''me'', ''mean'', ''meant'', ''means'',
    ''might'', ''might not'', ''mine'', ''more'', ''most'', ''mostly'', ''much'', ''must'',
    ''must not'', ''my'', ''myself'', ''name'', ''namely'', ''near'', ''need'', ''needs'',
    ''neither'', ''never'', ''next'', ''no'', ''nobody'', ''non'', ''none'', ''nor'',
    ''not'', ''nothing'', ''now'', ''nowhere'', ''of'', ''off'', ''often'', ''oh'', ''on'',
    ''once'', ''one'', ''only'', ''onto'', ''or'', ''other'', ''others'', ''otherwise'',
    ''ought'', ''our'', ''ours'', ''ourselves'', ''out'', ''over'', ''own'', ''part'',
    ''particular'', ''particularly'', ''past'', ''per'', ''perhaps'', ''place'',
    ''please'', ''point'', ''possible'', ''probably'', ''put'', ''puts'', ''quite'',
    ''rather'', ''really'', ''regarding'', ''right'', ''said'', ''same'', ''saw'', ''say'',
    ''saying'', ''says'', ''second'', ''see'', ''seem'', ''seemed'', ''seeming'',
    ''seems'', ''seen'', ''self'', ''selves'', ''sent'', ''several'', ''shall'',
    ''shall not'', ''she'', ''she would'', ''she will'', ''she is'', ''should'',
    ''should not'', ''since'', ''so'', ''some'', ''somebody'', ''someone'', ''something'',
    ''sometime'', ''sometimes'', ''somewhere'', ''soon'', ''still'', ''such'', ''sure'',
    ''take'', ''taken'', ''taking'', ''talked'', ''tell'', ''tends'', ''than'', ''that'',
    ''that is'', ''the'', ''their'', ''theirs'', ''them'', ''themselves'', ''then'',
    ''there'', ''there is'', ''thereafter'', ''thereby'', ''therefore'', ''therein'',
    ''thereupon'', ''these'', ''they'', ''they would'', ''they will'', ''they are'',
    ''they have'', ''thing'', ''things'', ''think'', ''thinks'', ''this'', ''those'',
    ''though'', ''thought'', ''through'', ''throughout'', ''thus'', ''till'', ''to'',
    ''together'', ''too'', ''took'', ''toward'', ''towards'', ''tried'', ''tries'',
    ''truly'', ''try'', ''trying'', ''twice'', ''under'', ''underneath'', ''undo'',
    ''unfortunately'', ''unless'', ''unlike'', ''unlikely'', ''until'', ''unto'', ''up'',
    ''upon'', ''us'', ''use'', ''used'', ''uses'', ''using'', ''usually'', ''value'',
    ''various'', ''very'', ''via'', ''view'', ''want'', ''wants'', ''was'', ''was not'',
    ''way'', ''we'', ''we would'', ''we will'', ''we are'', ''we have'', ''well'',
    ''went'', ''were'', ''were not'', ''what'', ''what is'', ''whatever'', ''when'',
    ''whence'', ''whenever'', ''where'', ''where is'', ''whereafter'', ''whereas'',
    ''whereby'', ''wherein'', ''whereupon'', ''wherever'', ''whether'', ''which'',
    ''while'', ''whither'', ''who'', ''who is'', ''whoever'', ''whole'', ''whom'',
    ''whose'', ''why'', ''why is'', ''will'', ''willing'', ''wish'', ''with'', ''within'',
    ''without'', ''will not'', ''wonder'', ''would'', ''would not'', ''yes'', ''yet'',
    ''you'', ''you would'', ''you will'', ''you are'', ''you have'', ''your'', ''youre'',
    ''yours'', ''yourself'', ''yourselves'']"

definition isDigit :: "char \<Rightarrow> bool" where
  "isDigit c \<longleftrightarrow> (let n = (of_char c :: nat) in 48 \<le> n \<and> n \<le> 57)"

definition shouldExcludeWord :: "string \<Rightarrow> bool" where
  "shouldExcludeWord word =
     (let lowerWord = trim (toLowerCase word) in
      if lowerWord \<in> set COMMON_WORDS_TO_EXCLUDE then True
      else if length lowerWord < 3 then True
      else if lowerWord \<noteq> [] \<and> list_all isDigit lowerWord then True
      else False)"

text \<open>
  The matches of \<^verbatim>\<open>/#([a-zA-Z0-9_-]+)/g\<close> from left to right: a \<^verbatim>\<open>#\<close> followed by the
  longest run of tag characters, at least one; the search resumes after the match.
\<close>

definition isTagChar :: "char \<Rightarrow> bool" where
  "isTagChar c \<longleftrightarrow> (let n = (of_char c :: nat) in
     (48 \<le> n \<and> n \<le> 57) \<or> (65 \<le> n \<and> n \<le> 90) \<or> (97 \<le> n \<and> n \<le> 122)
     \<or> c = CHR ''_'' \<or> c = CHR ''-'')"

function matchHashtags :: "string \<Rightarrow> string list" where
  "matchHashtags [] = []"
| "matchHashtags (c # cs) =
     (if c = CHR ''#'' \<and> takeWhile isTagChar cs \<noteq> []
      then (c # takeWhile isTagChar cs) # matchHashtags (dropWhile isTagChar cs)
      else matchHashtags cs)"
  by pat_completeness auto
termination
  by (relation "measure length") (auto simp: less_Suc_eq_le length_dropWhile_le)

text \<open>\<^verbatim>\<open>[...new Set(matches)]\<close>: the first occurrence of each element, in order.\<close>

fun uniqSeen :: "'a list \<Rightarrow> 'a list \<Rightarrow> 'a list" where
  "uniqSeen seen [] = []"
| "uniqSeen seen (x # xs) =
     (if x \<in> set seen then uniqSeen seen xs else x # uniqSeen (x # seen) xs)"

text \<open>\<^verbatim>\<open>extractHashtagsFromText\<close> (lines 415 to 431); \<open>collectTags\<close> is its \<^verbatim>\<open>forEach\<close>.\<close>

fun collectTags :: "nat \<Rightarrow> string list \<Rightarrow> string list \<Rightarrow> string list" where
  "collectTags maxTags hashtags [] = hashtags"
| "collectTags maxTags hashtags (tag # matches) =
     collectTags maxTags
       (if length hashtags < maxTags \<and> tag \<notin> set hashtags then hashtags @ [tag] else hashtags)
       matches"

definition extractHashtagsFromText :: "string \<Rightarrow> nat \<Rightarrow> string list" where
  "extractHashtagsFromText text maxTags = collectTags maxTags [] (matchHashtags text)"

text \<open>
  The regular expression of line 441, \<^verbatim>\<open>/#\s*HASHTAGS\s*:([^]*?)(?=\n\n|\n$|$)/i\<close>.
  \<open>matchMarker\<close> matches \<^verbatim>\<open>\s*HASHTAGS\s*:\<close> after a \<^verbatim>\<open>#\<close> and returns what follows the
  colon; without the \<^verbatim>\<open>u\<close> flag only the letters a to z match the pattern's capitals.
  \<open>sectionSplit\<close> is the lazy group up to the lookahead: it stops before two newlines,
  before a newline that ends the text, or at the end. \<open>findMarker\<close> tries the positions
  from the left and returns the text leading to the match, the group and the text after it.
\<close>

definition matchMarker :: "string \<Rightarrow> string option" where
  "matchMarker s =
     (let s1 = dropWhile isWhiteSpace s in
      if toLowerCase (take 8 s1) = ''hashtags'' then
        (case dropWhile isWhiteSpace (drop 8 s1) of
           [] \<Rightarrow> None
         | c # rest \<Rightarrow> if c = CHR '':'' then Some rest else None)
      else None)"

fun sectionSplit :: "string \<Rightarrow> string \<times> string" where
  "sectionSplit [] = ([], [])"
| "sectionSplit (c # cs) =
     (if c = newline \<and> (cs = [] \<or> hd cs = newline) then ([], c # cs)
      else (let (section, rest) = sectionSplit cs in (c # section, rest)))"

fun findMarker :: "string \<Rightarrow> string \<Rightarrow> (string \<times> string \<times> string) option" where
  "findMarker leading [] = None"
| "findMarker leading (c # cs) =
     (case (if c = CHR ''#'' then matchMarker cs else None) of
        Some afterColon \<Rightarrow>
          (let (section, rest) = sectionSplit afterColon in Some (leading, section, rest))
      | None \<Rightarrow> findMarker (leading @ [c]) cs)"

text \<open>
  \<^verbatim>\<open>split(/,\s*|\s+/)\<close> (line 450) and \<^verbatim>\<open>split(/\s+/)\<close> (line 234): a separator starts at a
  comma or a whitespace character (at a whitespace character only, for the second) and
  takes all the whitespace that follows; the pieces between separators are returned, the
  empty ones too.
\<close>

function splitOn :: "(char \<Rightarrow> bool) \<Rightarrow> string \<Rightarrow> string \<Rightarrow> string list" where
  "splitOn sep cur [] = [cur]"
| "splitOn sep cur (c # cs) =
     (if sep c then cur # splitOn sep [] (dropWhile isWhiteSpace cs)
      else splitOn sep (cur @ [c]) cs)"
  by pat_completeness auto
termination
  by (relation "measure (\<lambda>(sep, cur, s). length s)")
    (auto simp: less_Suc_eq_le length_dropWhile_le)

definition isTagSeparator :: "char \<Rightarrow> bool" where
  "isTagSeparator c \<longleftrightarrow> c = CHR '','' \<or> isWhiteSpace c"

text \<open>\<^verbatim>\<open>extractHashtagsFromResponse\<close> (lines 439 to 470), returning content and hashtags.\<close>

definition extractHashtagsFromResponse :: "string \<Rightarrow> string \<times> string list" where
  "extractHashtagsFromResponse response =
     (case findMarker [] response of
        Some (leading, section, rest) \<Rightarrow>
          (let hashtagSection = trim section;
               hashtagList = splitOn isTagSeparator [] hashtagSection
           in (trim (leading @ rest),
               map prefixHash (filter (\<lambda>tag. length tag > 0) (map trim hashtagList))))
      | None \<Rightarrow> (response, uniqSeen [] (matchHashtags response)))"

text \<open>
  \<^verbatim>\<open>extractKeywords\<close> (lines 230 to 248). \<^verbatim>\<open>wordCount\<close> is a plain object: the word
  \<^verbatim>\<open>__proto__\<close> never becomes a key of it, and the count of \<^verbatim>\<open>constructor\<close>, which starts
  from the inherited function, is not a number (\<open>None\<close>). \<^verbatim>\<open>Object.keys\<close> lists the
  keys that are array indices first, but those are purely numeric and the filter removes
  them; the other keys come in the order of their first occurrence.
\<close>

definition isWordChar :: "char \<Rightarrow> bool" where
  "isWordChar c \<longleftrightarrow> (let n = (of_char c :: nat) in
     (48 \<le> n \<and> n \<le> 57) \<or> (65 \<le> n \<and> n \<le> 90) \<or> (97 \<le> n \<and> n \<le> 122) \<or> c = CHR ''_'')"

definition keywordWords :: "string \<Rightarrow> string list" where
  "keywordWords text =
     filter (\<lambda>word. length word \<ge> 3)
       (splitOn isWhiteSpace []
          (map (\<lambda>c. if isWordChar c \<or> isWhiteSpace c then c else CHR '' '') (toLowerCase text)))"

definition wordCount :: "string list \<Rightarrow> string \<Rightarrow> nat option" where
  "wordCount words word =
     (if word = ''constructor'' then None else Some (count_list words word))"

text \<open>
  \<^verbatim>\<open>filteredWords.sort((a, b) => wordCount[b] - wordCount[a])\<close>. The comparison function
  is \<open>compareCount\<close>, \<open>None\<close> being NaN, which the sort reads as 0. When the comparison is
  consistent on the words (no count is NaN, or the counts that are numbers are all equal,
  so that every comparison is read as 0) the result is the stable sort that the language
  prescribes since ECMAScript 2019: each word is placed before the first word of the
  sorted part that has a smaller count. Otherwise the language leaves the order to the
  engine: \<^verbatim>\<open>Array.prototype.sort\<close> is then the parameter \<open>engineSort\<close>, a function that
  returns the elements it is given in some order.
\<close>

type_synonym engine_sort = "(string \<Rightarrow> string \<Rightarrow> int option) \<Rightarrow> string list \<Rightarrow> string list"

definition compareCount :: "(string \<Rightarrow> nat option) \<Rightarrow> string \<Rightarrow> string \<Rightarrow> int option" where
  "compareCount cnt a b =
     (case (cnt b, cnt a) of (Some n, Some m) \<Rightarrow> Some (int n - int m) | _ \<Rightarrow> None)"

definition consistentCounts :: "(string \<Rightarrow> nat option) \<Rightarrow> string list \<Rightarrow> bool" where
  "consistentCounts cnt ws \<longleftrightarrow>
     list_all (\<lambda>w. cnt w \<noteq> None) ws
     \<or> length (remdups (filter (\<lambda>c. c \<noteq> None) (map cnt ws))) \<le> 1"

fun insertByCount :: "(string \<Rightarrow> nat option) \<Rightarrow> string \<Rightarrow> string list \<Rightarrow> string list" where
  "insertByCount cnt a [] = [a]"
| "insertByCount cnt a (b # bs) =
     (if (case (cnt a, cnt b) of (Some m, Some n) \<Rightarrow> n < m | _ \<Rightarrow> False) then a # b # bs
      else b # insertByCount cnt a bs)"

definition sortByCount ::
  "engine_sort \<Rightarrow> (string \<Rightarrow> nat option) \<Rightarrow> string list \<Rightarrow> string list" where
  "sortByCount engineSort cnt ws =
     (if consistentCounts cnt ws then foldl (\<lambda>sorted a. insertByCount cnt a sorted) [] ws
      else engineSort (compareCount cnt) ws)"

definition extractKeywords ::
  "engine_sort \<Rightarrow> string \<Rightarrow> string list" where
  "extractKeywords engineSort text =
     (let words = keywordWords text;
          filteredWords =
            filter (\<lambda>word. \<not> shouldExcludeWord word)
              (uniqSeen [] (filter (\<lambda>word. word \<noteq> ''__proto__'') words))
      in sortByCount engineSort (wordCount words) filteredWords)"

text \<open>
  \<^verbatim>\<open>generateFallbackHashtags\<close> (lines 256 to 270); \<open>pick\<close> is the value of
  \<^verbatim>\<open>Math.floor(Math.random() * generalTags.length)\<close>, one of 0 to 3.
\<close>

definition generateFallbackHashtags :: "nat \<Rightarrow> string \<Rightarrow> string list" where
  "generateFallbackHashtags pick message =
     [''#chat'']
     @ (if CHR ''?'' \<in> set message then [''#question''] else [])
     @ (if length message > 100 then [''#detailed''] else [])
     @ (if length message < 20 then [''#brief''] else [])
     @ [[''#discussion'', ''#topic'', ''#conversation'', ''#query''] ! (pick mod 4)]"

text \<open>
  \<^verbatim>\<open>filterBlockedTags\<close> (lines 277 to 316) on an array of strings. \<^verbatim>\<open>db.getBlockedTags\<close>
  answers the empty list when its query is rejected.
\<close>

definition filterBlockedTags :: "db \<Rightarrow> string list \<Rightarrow> string list" where
  "filterBlockedTags d tags =
     (if tags = [] then []
      else (let blockedTagsRows = (case blocked_tags d of Inl _ \<Rightarrow> [] | Inr rows \<Rightarrow> rows) in
            if blockedTagsRows = [] then tags
            else filter (\<lambda>tag. tag \<noteq> [] \<and>
                    (let tagName = trim (toLowerCase (stripHash tag)) in
                     length tagName > 0 \<and> tagName \<notin> set (map toLowerCase blockedTagsRows)))
                   tags))"

text \<open>
  The candidates the two exported functions hand to the resolver: the explicit hashtags
  that pass the filter of lines 56 to 59 and 373 to 377, or the keywords as tags.
\<close>

definition passesExclusion :: "string \<Rightarrow> bool" where
  "passesExclusion tag = (let cleanTag = trim (stripHash tag) in
     length cleanTag > 0 \<and> \<not> shouldExcludeWord cleanTag)"

definition keywordTags :: "nat \<Rightarrow> string list \<Rightarrow> string list" where
  "keywordTags maxTags keywords = map (\<lambda>kw. CHR ''#'' # kw) (take maxTags keywords)"

text \<open>
  \<^verbatim>\<open>generateUserMessageHashtags\<close> (lines 40 to 91) on a string. \<open>resolveAndFormat\<close> is
  \<^verbatim>\<open>formatHashtags(await processHashtags(...))\<close>; an exception in it reaches the \<^verbatim>\<open>catch\<close>
  of the caller.
\<close>

definition resolveAndFormat :: "db \<Rightarrow> string list \<Rightarrow> exn + string list" where
  "resolveAndFormat d candidates =
     (case processHashtags d (JArr (map JStr candidates)) of
        Inl e \<Rightarrow> Inl e
      | Inr processedTags \<Rightarrow> formatHashtags (JArr processedTags))"

definition userCandidates ::
  "engine_sort \<Rightarrow> string \<Rightarrow> nat \<Rightarrow> string list option" where
  "userCandidates engineSort message maxTags =
     (let explicitTags = extractHashtagsFromText message maxTags in
      if length explicitTags > 0 then Some (filter passesExclusion explicitTags)
      else (let keywords = extractKeywords engineSort message in
            if keywords = [] then None else Some (keywordTags maxTags keywords)))"

definition generateUserMessageHashtags ::
  "engine_sort \<Rightarrow> db \<Rightarrow> nat \<Rightarrow> string \<Rightarrow> nat \<Rightarrow> string list" where
  "generateUserMessageHashtags engineSort d pick message maxTags =
     (if message = [] \<or> length (trim message) = 0 then []
      else (case userCandidates engineSort message maxTags of
              None \<Rightarrow> generateFallbackHashtags pick message
            | Some candidates \<Rightarrow>
                (case resolveAndFormat d candidates of
                   Inr hashtags \<Rightarrow> hashtags
                 | Inl _ \<Rightarrow> take maxTags [''#chat'', ''#conversation''])))"

text \<open>\<^verbatim>\<open>extractHashtags\<close> (lines 349 to 406) on a string.\<close>

definition responseCandidates ::
  "engine_sort \<Rightarrow> string \<Rightarrow> nat \<Rightarrow> string \<times> string list" where
  "responseCandidates engineSort response maxTags =
     (let (content, found) = extractHashtagsFromResponse response in
      if length found = 0 then
        (content, keywordTags maxTags
                    (filter (\<lambda>keyword. \<not> shouldExcludeWord keyword) (extractKeywords engineSort response)))
      else (content, filter passesExclusion found))"

definition extractHashtags ::
  "engine_sort \<Rightarrow> db \<Rightarrow> string \<Rightarrow> nat \<Rightarrow> string \<times> string list" where
  "extractHashtags engineSort d response maxTags =
     (if response = [] \<or> length (trim response) = 0 then ([], [])
      else (let (content, candidates) = responseCandidates engineSort response maxTags;
                nonBlockedTags = filterBlockedTags d candidates
            in case resolveAndFormat d nonBlockedTags of
                 Inr formattedTags \<Rightarrow> (content, formattedTags)
               | Inl _ \<Rightarrow> (response, [''#response'', ''#ai''])))"

text \<open>
  The explicit marker scan in the words of the specification: the tokens of the section
  between commas and whitespace, only those that start with \<^verbatim>\<open>#\<close>, each cut at its first
  character after the \<^verbatim>\<open>#\<close> that is neither a letter nor a digit.
\<close>

definition isAlphaNum :: "char \<Rightarrow> bool" where
  "isAlphaNum c \<longleftrightarrow> (let n = (of_char c :: nat) in
     (48 \<le> n \<and> n \<le> 57) \<or> (65 \<le> n \<and> n \<le> 90) \<or> (97 \<le> n \<and> n \<le> 122))"

function tokensOf :: "string \<Rightarrow> string list" where
  "tokensOf [] = []"
| "tokensOf (c # cs) =
     (if isTagSeparator c then tokensOf cs
      else (c # takeWhile (\<lambda>x. \<not> isTagSeparator x) cs)
           # tokensOf (dropWhile (\<lambda>x. \<not> isTagSeparator x) cs))"
  by pat_completeness auto
termination
  by (relation "measure length") (auto simp: less_Suc_eq_le length_dropWhile_le)

definition specMarkerTags :: "string \<Rightarrow> string list" where
  "specMarkerTags section =
     map (\<lambda>token. CHR ''#'' # takeWhile isAlphaNum (tl token))
       (filter startsWithHash (tokensOf section))"

text \<open>
  The marker and the end of a hashtag section, described without the scan: a marker is a
  \<^verbatim>\<open>#\<close>, whitespace, the word \<^verbatim>\<open>hashtags\<close> in any letter case, whitespace and a colon; a
  section ends where the text ends, before a newline that ends the text, or before two
  newlines.
\<close>

definition isMarker :: "string \<Rightarrow> bool" where
  "isMarker m \<longleftrightarrow>
     (\<exists>gap1 word gap2. m = CHR ''#'' # gap1 @ word @ gap2 @ '':''
        \<and> list_all isWhiteSpace gap1 \<and> toLowerCase word = ''hashtags''
        \<and> list_all isWhiteSpace gap2)"

definition sectionEnd :: "string \<Rightarrow> bool" where
  "sectionEnd s \<longleftrightarrow> s = [] \<or> s = [newline] \<or> take 2 s = [newline, newline]"

section \<open>The streaming response assembler\<close>

text \<open>
  The handler of \<^verbatim>\<open>response.data.on('data')\<close> in \<^verbatim>\<open>src/unnamed/part_007\<close> (lines 361 to
  458) and \<^verbatim>\<open>processCompletedResponse\<close> (lines 490 to 544). The four variables the
  handler closes over are the state; \<open>contentExtracted\<close> is only read by the handler (the
  callback of the tag request sets it). \<^verbatim>\<open>JSON.parse\<close> is the host's: the handler takes it
  as the parameter \<open>parse\<close>, \<open>None\<close> standing for its SyntaxError. A chunk is the string
  \<^verbatim>\<open>chunk.toString()\<close>. The message id and the colours, the same in every event of a
  generation, are left out of the events.
\<close>

record stream_state =
  fullResponse :: string
  chunkCount :: nat
  contentExtracted :: bool
  buffer :: string

datatype client_event =
    MessageChunk jsval bool jsval
  | StreamingHashtags "string list"

datatype action =
    Emit client_event
  | PostExtractTags string
  | Completed string
  | LogParseError string

definition substring :: "string \<Rightarrow> nat \<Rightarrow> nat \<Rightarrow> string" where
  "substring s a b = take (max a b - min a b) (drop (min a b) s)"

text \<open>
  The body of the inner \<^verbatim>\<open>try\<close> (lines 388 to 438) for one non-empty trimmed line. The
  statements that can throw are \<^verbatim>\<open>JSON.parse\<close>, the read of \<^verbatim>\<open>data.response\<close> when the
  line is \<^verbatim>\<open>null\<close>, and the conversion in \<^verbatim>\<open>fullResponse += data.response\<close>; all of
  them come before the first assignment, so an exception leaves the state as it was.
\<close>

definition handleLine ::
  "(string \<Rightarrow> jsval option) \<Rightarrow> stream_state \<Rightarrow> string
     \<Rightarrow> exn + (stream_state \<times> action list)" where
  "handleLine parse st jsonStr =
     (case parse jsonStr of
        None \<Rightarrow> Inl SyntaxError
      | Some data \<Rightarrow>
        (case getProp data ''response'' of
           Inl e \<Rightarrow> Inl e
         | Inr response \<Rightarrow>
           (case (if truthy response then
                    (case js_String response of
                       Inl e \<Rightarrow> Inl e
                     | Inr text \<Rightarrow>
                       (let st1 = st\<lparr>fullResponse := fullResponse st @ text,
                                     chunkCount := chunkCount st + 1\<rparr>
                        in Inr (st1,
                             Emit (MessageChunk response False JUndefined) #
                             (if \<not> contentExtracted st1 \<and> length (fullResponse st1) > 200
                                  \<and> chunkCount st1 mod 10 = 0
                              then [PostExtractTags (fullResponse st1)] else []))))
                  else Inr (st, [])) of
              Inl e \<Rightarrow> Inl e
            | Inr (st1, acts) \<Rightarrow>
              (case getProp data ''done'' of
                 Inl e \<Rightarrow> Inl e
               | Inr done \<Rightarrow>
                   Inr (st1, if truthy done then acts @ [Completed (fullResponse st1)]
                             else acts)))))"

text \<open>
  One complete segment of the buffer (lines 381 to 445): an empty line after trimming is
  skipped, an exception of the inner \<^verbatim>\<open>try\<close> is logged with the line cut at 100
  characters, and the scan goes on.
\<close>

definition problematicLine :: "string \<Rightarrow> string" where
  "problematicLine jsonStr =
     (if length jsonStr > 100 then substring jsonStr 0 100 @ ''... (truncated)'' else jsonStr)"

definition stepLine ::
  "(string \<Rightarrow> jsval option) \<Rightarrow> stream_state \<Rightarrow> string \<Rightarrow> stream_state \<times> action list" where
  "stepLine parse st segment =
     (let jsonStr = trim segment in
      if jsonStr = [] then (st, [])
      else (case handleLine parse st jsonStr of
              Inr (st1, acts) \<Rightarrow> (st1, acts)
            | Inl _ \<Rightarrow> (st, [LogParseError (problematicLine jsonStr)])))"

text \<open>
  The \<^verbatim>\<open>for\<close> loop over the indices of the buffer (lines 378 to 446), returning the final
  \<^verbatim>\<open>startIdx\<close> with the state and the actions performed.
\<close>

function scanBuffer ::
  "(string \<Rightarrow> jsval option) \<Rightarrow> string \<Rightarrow> nat \<Rightarrow> nat \<Rightarrow> stream_state \<Rightarrow> action list
     \<Rightarrow> nat \<times> stream_state \<times> action list" where
  "scanBuffer parse buf i startIdx st acts =
     (if i < length buf then
        (if buf ! i = newline then
           (let (st1, new) = stepLine parse st (substring buf startIdx i)
            in scanBuffer parse buf (i + 1) (i + 1) st1 (acts @ new))
         else scanBuffer parse buf (i + 1) startIdx st acts)
      else (startIdx, st, acts))"
  by pat_completeness auto
termination
  by (relation "measure (\<lambda>(parse, buf, i, startIdx, st, acts). length buf - i)") auto

definition onData ::
  "(string \<Rightarrow> jsval option) \<Rightarrow> stream_state \<Rightarrow> string \<Rightarrow> stream_state \<times> action list" where
  "onData parse st chunk =
     (let buf = buffer st @ chunk;
          (startIdx, st1, acts) = scanBuffer parse buf 0 0 (st\<lparr>buffer := buf\<rparr>) []
      in (st1\<lparr>buffer := (if startIdx < length buf then substring buf startIdx (length buf)
                          else [])\<rparr>, acts))"

text \<open>The data events of one generation, in arrival order.\<close>

fun feed ::
  "(string \<Rightarrow> jsval option) \<Rightarrow> stream_state \<Rightarrow> string list \<Rightarrow> stream_state \<times> action list" where
  "feed parse st [] = (st, [])"
| "feed parse st (chunk # chunks) =
     (let (st1, acts1) = onData parse st chunk;
          (st2, acts2) = feed parse st1 chunks
      in (st2, acts1 @ acts2))"

text \<open>
  The callback of the tag request started in line 408 (lines 411 to 425), for an answer
  that passes its test and carries the array \<open>streamTags\<close>: the tags are sent to the
  client as preliminary, and \<open>contentExtracted\<close> is set when there is at least one. An
  answer that fails the test, or a failed request, changes nothing. A generation is then a
  sequence of events of two kinds, handled by \<open>run\<close> in their order of arrival.
\<close>

definition onTagsResult :: "stream_state \<Rightarrow> string list \<Rightarrow> stream_state \<times> action list" where
  "onTagsResult st streamTags =
     (st\<lparr>contentExtracted := (if length streamTags > 0 then True else contentExtracted st)\<rparr>,
      [Emit (StreamingHashtags streamTags)])"

datatype stream_event = DataEvent string | TagsResult "string list"

fun run ::
  "(string \<Rightarrow> jsval option) \<Rightarrow> stream_state \<Rightarrow> stream_event list
     \<Rightarrow> stream_state \<times> action list" where
  "run parse st [] = (st, [])"
| "run parse st (DataEvent chunk # events) =
     (let (st1, acts1) = onData parse st chunk;
          (st2, acts2) = run parse st1 events
      in (st2, acts1 @ acts2))"
| "run parse st (TagsResult streamTags # events) =
     (let (st1, acts1) = onTagsResult st streamTags;
          (st2, acts2) = run parse st1 events
      in (st2, acts1 @ acts2))"

fun received :: "stream_event list \<Rightarrow> string" where
  "received [] = []"
| "received (DataEvent chunk # events) = chunk @ received events"
| "received (TagsResult streamTags # events) = received events"

definition initialState :: stream_state where
  "initialState = \<lparr>fullResponse = [], chunkCount = 0, contentExtracted = False, buffer = []\<rparr>"

text \<open>
  \<^verbatim>\<open>processCompletedResponse\<close>: the awaited result of the hashtag service is the parameter
  \<open>extracted\<close> (\<open>Inl\<close> when the promise is rejected). The two writes to the store are
  attempted in turn and their failures caught, so every path ends in exactly one emit of
  the terminal event: with the final tags, or in the \<^verbatim>\<open>catch\<close> with \<^verbatim>\<open>hashtags || []\<close>.
\<close>

definition processCompletedResponse ::
  "(string \<Rightarrow> exn + string \<times> string list) \<Rightarrow> jsval \<Rightarrow> string \<Rightarrow> client_event list" where
  "processCompletedResponse extracted hashtags full =
     (case extracted full of
        Inr (content, finalTags) \<Rightarrow> [MessageChunk (JStr []) True (JArr (map JStr finalTags))]
      | Inl _ \<Rightarrow> [MessageChunk (JStr []) True (if truthy hashtags then hashtags else JArr [])])"

text \<open>
  What the client receives. \<^verbatim>\<open>processCompletedResponse\<close> is asynchronous: its emit comes
  after the handler that called it has returned, before or after later data events. Each
  data event carries a flag telling whether the completions started so far have emitted
  before the next data event; those still pending emit after the last one.
\<close>

definition emitted :: "action list \<Rightarrow> client_event list" where
  "emitted acts = concat (map (\<lambda>a. case a of Emit e \<Rightarrow> [e] | _ \<Rightarrow> []) acts)"

definition started :: "action list \<Rightarrow> string list" where
  "started acts = concat (map (\<lambda>a. case a of Completed full \<Rightarrow> [full] | _ \<Rightarrow> []) acts)"

fun clientTrace ::
  "(string \<Rightarrow> jsval option) \<Rightarrow> (string \<Rightarrow> exn + string \<times> string list) \<Rightarrow> jsval
     \<Rightarrow> stream_state \<Rightarrow> string list \<Rightarrow> (string \<times> bool) list \<Rightarrow> client_event list" where
  "clientTrace parse extracted hashtags st pending [] =
     concat (map (processCompletedResponse extracted hashtags) pending)"
| "clientTrace parse extracted hashtags st pending ((chunk, settled) # rest) =
     (let (st1, acts) = onData parse st chunk;
          pending1 = pending @ started acts
      in if settled then
           emitted acts @ concat (map (processCompletedResponse extracted hashtags) pending1)
             @ clientTrace parse extracted hashtags st1 [] rest
         else emitted acts @ clientTrace parse extracted hashtags st1 pending1 rest)"

text \<open>
  The buffer described without indices: the complete segments of a string, and what
  follows its last newline.
\<close>

fun linesAcc :: "string \<Rightarrow> string \<Rightarrow> string list \<times> string" where
  "linesAcc cur [] = ([], cur)"
| "linesAcc cur (c # cs) =
     (if c = newline then (let (ls, r) = linesAcc [] cs in (cur # ls, r))
      else linesAcc (cur @ [c]) cs)"

definition afterLastNewline :: "string \<Rightarrow> string" where
  "afterLastNewline s = rev (takeWhile (\<lambda>c. c \<noteq> newline) (rev s))"

fun processLines ::
  "(string \<Rightarrow> jsval option) \<Rightarrow> stream_state \<Rightarrow> string list \<Rightarrow> stream_state \<times> action list" where
  "processLines parse st [] = (st, [])"
| "processLines parse st (l # ls) =
     (let (st1, acts1) = stepLine parse st l;
          (st2, acts2) = processLines parse st1 ls
      in (st2, acts1 @ acts2))"

text \<open>
  A stand-in for \<^verbatim>\<open>JSON.parse\<close> on the three lines of the scenario of three chunks,
  rejecting every other string: the parser at which the theorems about the handler are
  instantiated.
\<close>

definition exampleParse :: "string \<Rightarrow> jsval option" where
  \<open>exampleParse s =
     (if s = ''{"response":"Hel"}'' then Some (JObj [(''response'', JStr ''Hel'')])
      else if s = ''{"response":"lo"}'' then Some (JObj [(''response'', JStr ''lo'')])
      else if s = ''{"done":true}'' then Some (JObj [(''done'', JBool True)])
      else None)\<close>

section \<open>Facts about strings\<close>

lemma hash_not_space: "\<not> isWhiteSpace CHR ''#''"
  by (simp add: isWhiteSpace_def)

lemma trim_fixed:
  assumes "s \<noteq> []" "\<not> isWhiteSpace (hd s)" "\<not> isWhiteSpace (last s)"
  shows "trim s = s"
proof -
  from assms(1,2) have a: "dropWhile isWhiteSpace s = s"
    by (cases s) auto
  from assms(1,3) have b: "dropWhile isWhiteSpace (rev s) = rev s"
    by (cases "rev s") (auto simp: last_rev hd_rev)
  show ?thesis
    by (simp add: trim_def a b)
qed

lemma trim_last: "trim s \<noteq> [] \<Longrightarrow> \<not> isWhiteSpace (last (trim s))"
  unfolding trim_def by (simp add: last_rev hd_dropWhile)

lemma trim_hd: "trim s \<noteq> [] \<Longrightarrow> \<not> isWhiteSpace (hd (trim s))"
proof -
  assume ne: "trim s \<noteq> []"
  let ?d = "dropWhile isWhiteSpace s"
  have "trim s = []" if e: "?d = []"
    unfolding trim_def e by simp
  with ne have dne: "?d \<noteq> []"
    by blast
  then have h: "\<not> isWhiteSpace (hd ?d)"
    by (rule hd_dropWhile)
  obtain c cs where d: "?d = c # cs"
    using dne by (cases ?d) auto
  with h have c: "\<not> isWhiteSpace c"
    by simp
  have "dropWhile isWhiteSpace (rev ?d) = dropWhile isWhiteSpace (rev cs) @ [c]"
    unfolding d using c by (simp add: dropWhile_append)
  then have "trim s = c # rev (dropWhile isWhiteSpace (rev cs))"
    by (simp add: trim_def)
  with c show ?thesis
    by simp
qed

lemma trim_idem: "trim (trim s) = trim s"
proof (cases "trim s = []")
  case True
  have "trim [] = []"
    by (simp add: trim_def)
  with True show ?thesis
    by simp
next
  case False
  then show ?thesis
    by (intro trim_fixed trim_hd trim_last)
qed

lemma stripHashes_last: "stripHashes s \<noteq> [] \<Longrightarrow> last (stripHashes s) = last s"
  unfolding stripHashes_def
  by (induction s) (auto split: if_splits)

lemma stripHashes_hd: "stripHashes s \<noteq> [] \<Longrightarrow> hd (stripHashes s) \<noteq> CHR ''#''"
  unfolding stripHashes_def using hd_dropWhile[of "\<lambda>c. c = CHR ''#''" s] by blast

lemma stripHashes_fixed: "s \<noteq> [] \<Longrightarrow> hd s \<noteq> CHR ''#'' \<Longrightarrow> stripHashes s = s"
  unfolding stripHashes_def by (cases s) auto

lemma formatClean_idem: "formatClean (formatClean s) = formatClean s"
proof (cases "stripHashes (trim s) = []")
  case True
  then show ?thesis
    by (simp add: formatClean_def trim_def stripHashes_def)
next
  case False
  let ?c = "stripHashes (trim s)"
  have tne: "trim s \<noteq> []"
    using False by (auto simp: stripHashes_def)
  have l: "\<not> isWhiteSpace (last ?c)"
    using False tne by (simp add: stripHashes_last trim_last)
  have "trim (CHR ''#'' # ?c) = CHR ''#'' # ?c"
    using False l by (intro trim_fixed) (simp_all add: hash_not_space)
  moreover have "stripHashes (CHR ''#'' # ?c) = ?c"
    using stripHashes_fixed[OF False stripHashes_hd[OF False]]
    by (simp add: stripHashes_def)
  ultimately show ?thesis
    using False by (simp add: formatClean_def)
qed

lemma formatClean_length: "formatClean s \<noteq> [] \<Longrightarrow> length (formatClean s) > 1"
  by (auto simp: formatClean_def Let_def split: if_splits)

lemma map_exn_total:
  assumes "\<And>x. x \<in> set xs \<Longrightarrow> f x = Inr (g x)"
  shows "map_exn f xs = Inr (map g xs)"
  using assms by (induction xs) auto

lemma formatHashtags_strings:
  "formatHashtags (JArr (map JStr xs)) = Inr (filter (\<lambda>t. t \<noteq> []) (map formatClean xs))"
proof -
  have "map_exn formatTag (map JStr xs) = Inr (map (\<lambda>v. formatClean (case v of JStr s \<Rightarrow> s)) (map JStr xs))"
    by (rule map_exn_total) (auto simp: formatTag_def)
  then have m: "map_exn formatTag (map JStr xs) = Inr (map formatClean xs)"
    by (simp add: comp_def)
  have "filter (\<lambda>t. t \<noteq> [] \<and> length t > 1) (map formatClean xs)
      = filter (\<lambda>t. t \<noteq> []) (map formatClean xs)"
    by (rule filter_cong) (auto dest: formatClean_length)
  with m show ?thesis
    by (simp add: formatHashtags_def)
qed

section \<open>Facts about the resolver\<close>

lemma prefixHash_trim_idem: "prefixHash (trim (prefixHash (trim s))) = prefixHash (trim s)"
proof (cases "startsWithHash (trim s)")
  case True
  then show ?thesis
    by (simp add: prefixHash_def trim_idem)
next
  case False
  have t: "trim (CHR ''#'' # trim s) = CHR ''#'' # trim s"
  proof (rule trim_fixed)
    show "CHR ''#'' # trim s \<noteq> []"
      by simp
    show "\<not> isWhiteSpace (hd (CHR ''#'' # trim s))"
      by (simp add: hash_not_space)
    show "\<not> isWhiteSpace (last (CHR ''#'' # trim s))"
      using trim_last[of s] by (cases "trim s = []") (simp_all add: hash_not_space)
  qed
  from False show ?thesis
    by (simp add: prefixHash_def t startsWithHash_def)
qed

lemma resolveLoop_eq:
  "resolveLoop b syn tags processed seen = processed @ dedupSeen seen (substituteOnce b syn tags)"
proof (induction tags arbitrary: processed seen)
  case Nil
  show ?case
    by (simp add: substituteOnce_def)
next
  case (Cons tag tags)
  show ?case
  proof (cases "cleanTagOf tag \<in> set b")
    case True
    then show ?thesis
      using Cons.IH[of processed seen] by (simp add: substituteOnce_def)
  next
    case False
    let ?f = "CHR ''#'' # bestTagOf syn (cleanTagOf tag)"
    have step: "substituteOnce b syn (tag # tags) = ?f # substituteOnce b syn tags"
      using False by (simp add: substituteOnce_def)
    show ?thesis
    proof (cases "toLowerCase ?f \<in> set seen")
      case True
      with False show ?thesis
        using Cons.IH[of processed seen] by (simp add: step Let_def)
    next
      case notseen: False
      with False show ?thesis
        using Cons.IH[of "processed @ [?f]" "toLowerCase ?f # seen"]
        by (simp add: step Let_def)
    qed
  qed
qed

lemma normalize_strings:
  "map_exn normalizeTag (map JStr xs) = Inr (map (\<lambda>s. prefixHash (trim s)) xs)"
proof -
  have "map_exn normalizeTag (map JStr xs)
      = Inr (map (\<lambda>v. prefixHash (trim (case v of JStr s \<Rightarrow> s))) (map JStr xs))"
    by (rule map_exn_total) (auto simp: normalizeTag_def)
  then show ?thesis
    by (simp add: comp_def)
qed

lemma fallback_strings: "fallbackResolve (map JStr xs) = Inr (normalizedStrings xs)"
proof -
  have "map_exn fallbackTag (map JStr xs)
      = Inr (map (\<lambda>v. prefixHash (trim (case v of JStr s \<Rightarrow> s))) (map JStr xs))"
    by (rule map_exn_total) (auto simp: fallbackTag_def prefixHash_def)
  then have "map_exn fallbackTag (map JStr xs) = Inr (map (\<lambda>s. prefixHash (trim s)) xs)"
    by (simp add: comp_def)
  then show ?thesis
    by (simp add: fallbackResolve_def normalizedStrings_def)
qed

lemma tryResolve_strings:
  assumes "blocked_tags d = Inr blockedRows" "tag_synonyms d = Inr synonymRows"
  shows "tryResolve d (map JStr xs) = Inr (resolved blockedRows synonymRows xs)"
  using assms
  by (simp add: tryResolve_def normalize_strings resolveLoop_eq resolved_def
      normalizedStrings_def Let_def)

lemma tryResolve_db_down:
  assumes "blocked_tags d = Inl e \<or> tag_synonyms d = Inl e"
  shows "\<exists>e'. tryResolve d (map JStr xs) = Inl e'"
  using assms
  by (auto simp: tryResolve_def normalize_strings Let_def split: sum.splits)

lemma resolved_Nil: "resolved blockedRows synonymRows [] = []"
  by (simp add: resolved_def normalizedStrings_def substituteOnce_def)

lemma diagnosticLine_array: "\<exists>line. diagnosticLine (JArr xs) = Inr line"
  by (simp add: diagnosticLine_def lengthOf_def)

lemma processHashtags_strings:
  assumes "blocked_tags d = Inr blockedRows" "tag_synonyms d = Inr synonymRows"
  shows "processHashtags d (JArr (map JStr xs))
         = Inr (map JStr (resolved blockedRows synonymRows xs))"
proof -
  from diagnosticLine_array obtain line where
    line: "diagnosticLine (JArr (map JStr xs)) = Inr line"
    by blast
  show ?thesis
  proof (cases "xs = []")
    case True
    then show ?thesis
      using line
      by (simp add: processHashtags_def toArray_def originalProcessHashtags_def resolved_Nil)
  next
    case False
    then show ?thesis
      using tryResolve_strings[OF assms, of xs] line
      by (simp add: processHashtags_def toArray_def originalProcessHashtags_def)
  qed
qed

lemma processHashtags_strings_down:
  assumes "blocked_tags d = Inl e \<or> tag_synonyms d = Inl e"
  shows "processHashtags d (JArr (map JStr xs)) = Inr (map JStr (normalizedStrings xs))"
proof -
  from diagnosticLine_array obtain line where
    line: "diagnosticLine (JArr (map JStr xs)) = Inr line"
    by blast
  show ?thesis
  proof (cases "xs = []")
    case True
    then show ?thesis
      using line
      by (simp add: processHashtags_def toArray_def originalProcessHashtags_def
          normalizedStrings_def)
  next
    case False
    from tryResolve_db_down[OF assms, of xs] obtain e' where
      "tryResolve d (map JStr xs) = Inl e'"
      by blast
    with False line show ?thesis
      by (simp add: processHashtags_def toArray_def originalProcessHashtags_def
          fallback_strings)
  qed
qed

text \<open>
  What the wrapper does with an argument that is not an array, once the diagnostic line
  has been built without an exception.
\<close>

lemma wrapper_conversion:
  assumes "diagnosticLine v = Inr line"
  shows "(\<not> truthy v \<longrightarrow> processHashtags d v = Inr [])
       \<and> (truthy v \<longrightarrow> (\<exists>result. processHashtags d v = Inr result))
       \<and> (truthy v \<and> originalProcessHashtags d (toArray v) = Inr tags
            \<longrightarrow> processHashtags d v = Inr (map JStr tags))
       \<and> (truthy v \<and> originalProcessHashtags d (toArray v) = Inl e
            \<longrightarrow> processHashtags d v = Inr (toArray v))"
  using assms by (simp add: processHashtags_def split: sum.splits)

lemma wrapper_no_length:
  "processHashtags d JNull = Inr [] \<and> processHashtags d JUndefined = Inr []
   \<and> processHashtags d (JBool b) = Inr [] \<and> processHashtags d (JNum nz t) = Inr []
   \<and> (\<exists>result. processHashtags d (JStr s) = Inr result)
   \<and> (\<exists>result. processHashtags d (JArr xs) = Inr result)"
  by (simp add: processHashtags_def diagnosticLine_def lengthOf_def toArray_def
      originalProcessHashtags_def split: sum.splits)

lemma dedupSeen_Nil_iff: "dedupSeen [] ts = [] \<longleftrightarrow> ts = []"
  by (cases ts) auto

section \<open>Facts about the streaming assembler\<close>

declare scanBuffer.simps [simp del]

lemma substring_le: "a \<le> b \<Longrightarrow> substring s a b = take (b - a) (drop a s)"
  by (simp add: substring_def)

lemma substring_snoc:
  assumes "a \<le> i" "i < length s"
  shows "substring s a (Suc i) = substring s a i @ [s ! i]"
proof -
  have "i - a < length (drop a s)"
    using assms by simp
  then have "take (Suc (i - a)) (drop a s) = take (i - a) (drop a s) @ [drop a s ! (i - a)]"
    by (rule take_Suc_conv_app_nth)
  moreover have "drop a s ! (i - a) = s ! i"
    using assms by simp
  moreover have "Suc i - a = Suc (i - a)"
    using assms by simp
  ultimately show ?thesis
    using assms by (simp add: substring_le)
qed

lemma scanBuffer_lines:
  "startIdx \<le> i \<Longrightarrow> i \<le> length buf \<Longrightarrow>
   scanBuffer parse buf i startIdx st acts =
     (let (ls, r) = linesAcc (substring buf startIdx i) (drop i buf);
          (st1, new) = processLines parse st ls
      in (length buf - length r, st1, acts @ new))"
proof (induction parse buf i startIdx st acts rule: scanBuffer.induct)
  case (1 parse buf i startIdx st acts)
  show ?case
  proof (cases "i < length buf")
    case False
    with 1 have i: "i = length buf"
      by simp
    have "substring buf startIdx i = drop startIdx buf"
      using 1 i by (simp add: substring_le)
    then show ?thesis
      using i 1(3) by (subst scanBuffer.simps) simp
  next
    case True
    then have d: "drop i buf = buf ! i # drop (Suc i) buf"
      by (simp add: Cons_nth_drop_Suc)
    show ?thesis
    proof (cases "buf ! i = newline")
      case nl: True
      obtain st1 new where s: "stepLine parse st (substring buf startIdx i) = (st1, new)"
        by (cases "stepLine parse st (substring buf startIdx i)")
      have e: "substring buf (Suc i) (Suc i) = []"
        by (simp add: substring_def)
      have ih: "scanBuffer parse buf (i + 1) (i + 1) st1 (acts @ new) =
          (let (ls, r) = linesAcc [] (drop (Suc i) buf);
               (st2, new2) = processLines parse st1 ls
           in (length buf - length r, st2, (acts @ new) @ new2))"
        using 1(1)[OF True nl s[symmetric] refl] True e by simp
      show ?thesis
        using True nl s ih
        by (subst scanBuffer.simps) (simp add: d split: prod.splits)
    next
      case other: False
      have ih: "scanBuffer parse buf (i + 1) startIdx st acts =
          (let (ls, r) = linesAcc (substring buf startIdx i @ [buf ! i]) (drop (Suc i) buf);
               (st1, new) = processLines parse st ls
           in (length buf - length r, st1, acts @ new))"
        using 1(2)[OF True other] 1(3) True substring_snoc[of startIdx i buf] by simp
      show ?thesis
        using True other ih
        by (subst scanBuffer.simps) (simp add: d)
    qed
  qed
qed


lemma afterLastNewline_append:
  "afterLastNewline (x @ y) =
     (if newline \<in> set y then afterLastNewline y else afterLastNewline x @ y)"
proof (cases "newline \<in> set y")
  case True
  then have "newline \<in> set (rev y)" and "\<not> newline \<noteq> newline"
    by simp_all
  then have "takeWhile (\<lambda>c. c \<noteq> newline) (rev y @ rev x) = takeWhile (\<lambda>c. c \<noteq> newline) (rev y)"
    by (rule takeWhile_append1)
  with True show ?thesis
    by (simp add: afterLastNewline_def)
next
  case False
  then have "\<And>c. c \<in> set (rev y) \<Longrightarrow> c \<noteq> newline"
    by auto
  then have "takeWhile (\<lambda>c. c \<noteq> newline) (rev y @ rev x)
      = rev y @ takeWhile (\<lambda>c. c \<noteq> newline) (rev x)"
    by (rule takeWhile_append2)
  with False show ?thesis
    by (simp add: afterLastNewline_def)
qed

lemma afterLastNewline_free: "newline \<notin> set s \<Longrightarrow> afterLastNewline s = s"
proof -
  assume "newline \<notin> set s"
  then have tw: "takeWhile (\<lambda>c. c \<noteq> newline) (rev s) = rev s"
    by (auto simp: takeWhile_eq_all_conv)
  show ?thesis
    unfolding afterLastNewline_def tw by simp
qed

lemma afterLastNewline_snoc: "afterLastNewline (cur @ [newline]) = []"
  by (simp add: afterLastNewline_def)

lemma afterLastNewline_no_newline: "newline \<notin> set (afterLastNewline s)"
proof
  assume "newline \<in> set (afterLastNewline s)"
  then have "newline \<in> set (takeWhile (\<lambda>c. c \<noteq> newline) (rev s))"
    by (simp add: afterLastNewline_def)
  then show False
    by (auto dest: set_takeWhileD)
qed

lemma linesAcc_rest:
  "newline \<notin> set cur \<Longrightarrow> snd (linesAcc cur s) = afterLastNewline (cur @ s)"
proof (induction s arbitrary: cur)
  case Nil
  then show ?case
    by (simp add: afterLastNewline_free)
next
  case (Cons c cs)
  show ?case
  proof (cases "c = newline")
    case True
    have "afterLastNewline ((cur @ [newline]) @ cs) = afterLastNewline cs"
      unfolding afterLastNewline_append[of "cur @ [newline]" cs] afterLastNewline_snoc
      by (simp add: afterLastNewline_free)
    then have "afterLastNewline (cur @ newline # cs) = afterLastNewline cs"
      by simp
    with True Cons.IH[of "[]"] show ?thesis
      by (simp add: split_beta)
  next
    case False
    with Cons.prems Cons.IH[of "cur @ [c]"] show ?thesis
      by simp
  qed
qed

lemma linesAcc_append:
  "linesAcc cur (a @ b) =
     (let (la, ra) = linesAcc cur a; (lb, rb) = linesAcc ra b in (la @ lb, rb))"
  by (induction a arbitrary: cur) (auto simp: split_beta)

lemma linesAcc_free: "newline \<notin> set a \<Longrightarrow> linesAcc cur a = ([], cur @ a)"
  by (induction a arbitrary: cur) auto

lemma linesAcc_suffix: "\<exists>pre. cur @ s = pre @ snd (linesAcc cur s)"
proof (induction s arbitrary: cur)
  case Nil
  show ?case
    by simp
next
  case (Cons c cs)
  show ?case
  proof (cases "c = newline")
    case True
    from Cons.IH[of "[]"] obtain pre where "cs = pre @ snd (linesAcc [] cs)"
      by auto
    then have "cur @ c # cs = (cur @ c # pre) @ snd (linesAcc [] cs)"
      by simp
    with True show ?thesis
      by (auto simp: split_beta simp del: append_assoc)
  next
    case False
    with Cons.IH[of "cur @ [c]"] show ?thesis
      by simp
  qed
qed

lemma linesAcc_drop:
  "drop (length (cur @ s) - length (snd (linesAcc cur s))) (cur @ s) = snd (linesAcc cur s)"
proof -
  from linesAcc_suffix[of cur s] obtain pre where e: "cur @ s = pre @ snd (linesAcc cur s)"
    by blast
  have "drop (length (pre @ snd (linesAcc cur s)) - length (snd (linesAcc cur s)))
          (pre @ snd (linesAcc cur s)) = snd (linesAcc cur s)"
    by simp
  with e show ?thesis
    by simp
qed

lemma rest_of_buffer:
  assumes "drop (length buf - length r) buf = r"
  shows "(if length buf - length r < length buf
          then substring buf (length buf - length r) (length buf) else []) = r"
proof (cases "length buf - length r < length buf")
  case True
  have "substring buf (length buf - length r) (length buf) = drop (length buf - length r) buf"
    by (simp add: substring_def)
  with True assms show ?thesis
    by simp
next
  case False
  then have "drop (length buf - length r) buf = []"
    by simp
  with assms False show ?thesis
    by simp
qed

lemma handleLine_buffer:
  "handleLine parse (st\<lparr>buffer := b\<rparr>) l =
     (case handleLine parse st l of Inl e \<Rightarrow> Inl e | Inr (st1, acts) \<Rightarrow> Inr (st1\<lparr>buffer := b\<rparr>, acts))"
proof (cases "parse l")
  case None
  then show ?thesis
    by (simp add: handleLine_def)
next
  case (Some data)
  show ?thesis
  proof (cases "getProp data ''response''")
    case (Inl e)
    with Some show ?thesis
      by (simp add: handleLine_def)
  next
    case (Inr response)
    note resp = this
    show ?thesis
    proof (cases "getProp data ''done''")
      case (Inl e)
      with Some resp show ?thesis
        by (auto simp: handleLine_def Let_def split: sum.split)
    next
      case (Inr dn)
      with Some resp show ?thesis
        by (auto simp: handleLine_def Let_def split: sum.split)
    qed
  qed
qed

lemma stepLine_buffer:
  "stepLine parse (st\<lparr>buffer := b\<rparr>) l =
     (let (st1, acts) = stepLine parse st l in (st1\<lparr>buffer := b\<rparr>, acts))"
  by (simp add: stepLine_def handleLine_buffer Let_def split: sum.split prod.split)

lemma processLines_buffer:
  "processLines parse (st\<lparr>buffer := b\<rparr>) ls =
     (let (st1, acts) = processLines parse st ls in (st1\<lparr>buffer := b\<rparr>, acts))"
  by (induction ls arbitrary: st) (auto simp: stepLine_buffer split_beta)

lemma processLines_append:
  "processLines parse st (xs @ ys) =
     (let (st1, acts1) = processLines parse st xs;
          (st2, acts2) = processLines parse st1 ys
      in (st2, acts1 @ acts2))"
  by (induction xs arbitrary: st) (auto simp: split_beta)

lemma onData_lines:
  "onData parse st chunk =
     (let (ls, r) = linesAcc [] (buffer st @ chunk);
          (st1, acts) = processLines parse st ls
      in (st1\<lparr>buffer := r\<rparr>, acts))"
proof -
  let ?buf = "buffer st @ chunk"
  obtain ls r where l: "linesAcc [] ?buf = (ls, r)"
    by (cases "linesAcc [] ?buf")
  obtain st1 acts where p: "processLines parse st ls = (st1, acts)"
    by (cases "processLines parse st ls")
  have s: "scanBuffer parse ?buf 0 0 (st\<lparr>buffer := ?buf\<rparr>) []
      = (length ?buf - length r, st1\<lparr>buffer := ?buf\<rparr>, acts)"
    using scanBuffer_lines[of 0 0 ?buf parse "st\<lparr>buffer := ?buf\<rparr>" "[]"] l p
    by (simp add: substring_def processLines_buffer)
  have d: "drop (length ?buf - length r) ?buf = r"
    using linesAcc_drop[of "[]" ?buf] l by simp
  have "(if length ?buf - length r < length ?buf
         then substring ?buf (length ?buf - length r) (length ?buf) else []) = r"
    using d by (rule rest_of_buffer)
  moreover have "onData parse st chunk =
      (st1\<lparr>buffer := ?buf\<rparr>\<lparr>buffer := (if length ?buf - length r < length ?buf
         then substring ?buf (length ?buf - length r) (length ?buf) else [])\<rparr>, acts)"
    by (simp only: onData_def Let_def s prod.case)
  ultimately have "onData parse st chunk = (st1\<lparr>buffer := r\<rparr>, acts)"
    by simp
  then show ?thesis
    using l p by simp
qed

lemma onData_buffer: "buffer (fst (onData parse st chunk)) = afterLastNewline (buffer st @ chunk)"
  using linesAcc_rest[of "[]" "buffer st @ chunk"]
  by (simp add: onData_lines split_beta)

lemma onData_append:
  "onData parse st (a @ b) =
     (let (st1, acts1) = onData parse st a; (st2, acts2) = onData parse st1 b
      in (st2, acts1 @ acts2))"
proof -
  obtain la ra where a: "linesAcc [] (buffer st @ a) = (la, ra)"
    by (cases "linesAcc [] (buffer st @ a)")
  obtain lb rb where b: "linesAcc ra b = (lb, rb)"
    by (cases "linesAcc ra b")
  have ra: "newline \<notin> set ra"
    using linesAcc_rest[of "[]" "buffer st @ a"] a afterLastNewline_no_newline[of "buffer st @ a"]
    by simp
  have ab: "linesAcc [] (buffer st @ a @ b) = (la @ lb, rb)"
    using linesAcc_append[of "[]" "buffer st @ a" b] a b by simp
  have rb: "linesAcc [] (ra @ b) = (lb, rb)"
    using linesAcc_append[of "[]" ra b] linesAcc_free[OF ra, of "[]"] b by simp
  obtain st1 acts1 where p1: "processLines parse st la = (st1, acts1)"
    by (cases "processLines parse st la")
  obtain st2 acts2 where p2: "processLines parse st1 lb = (st2, acts2)"
    by (cases "processLines parse st1 lb")
  have l: "onData parse st (a @ b) = (st2\<lparr>buffer := rb\<rparr>, acts1 @ acts2)"
    using ab p1 p2 by (simp add: onData_lines processLines_append)
  have m: "onData parse st a = (st1\<lparr>buffer := ra\<rparr>, acts1)"
    using a p1 by (simp add: onData_lines)
  have r: "onData parse (st1\<lparr>buffer := ra\<rparr>) b = (st2\<lparr>buffer := rb\<rparr>, acts2)"
    using rb p2 by (simp add: onData_lines processLines_buffer)
  from l m r show ?thesis
    by simp
qed

lemma onData_empty: "newline \<notin> set (buffer st) \<Longrightarrow> onData parse st [] = (st, [])"
  by (simp add: onData_lines linesAcc_free)

lemma onData_buffer_free: "newline \<notin> set (buffer (fst (onData parse st chunk)))"
  by (simp add: onData_buffer afterLastNewline_no_newline)

lemma feed_concat:
  "newline \<notin> set (buffer st) \<Longrightarrow> feed parse st chunks = onData parse st (concat chunks)"
proof (induction chunks arbitrary: st)
  case Nil
  then show ?case
    by (simp add: onData_empty)
next
  case (Cons c cs)
  obtain st1 acts1 where o: "onData parse st c = (st1, acts1)"
    by (cases "onData parse st c")
  have "newline \<notin> set (buffer st1)"
    using onData_buffer_free[of parse st c] o by simp
  then have "feed parse st1 cs = onData parse st1 (concat cs)"
    by (rule Cons.IH)
  with o show ?case
    by (simp add: onData_append)
qed

lemma afterLastNewline_absorb:
  "afterLastNewline (afterLastNewline a @ b) = afterLastNewline (a @ b)"
proof (cases "newline \<in> set b")
  case True
  then show ?thesis
    by (simp add: afterLastNewline_append)
next
  case False
  have "afterLastNewline (afterLastNewline a) = afterLastNewline a"
    by (rule afterLastNewline_free) (rule afterLastNewline_no_newline)
  with False show ?thesis
    by (simp add: afterLastNewline_append)
qed

lemma run_buffer:
  "newline \<notin> set (buffer st) \<Longrightarrow>
   buffer (fst (run parse st events)) = afterLastNewline (buffer st @ received events)"
proof (induction events arbitrary: st)
  case Nil
  then show ?case
    by (simp add: afterLastNewline_free)
next
  case (Cons ev events)
  show ?case
  proof (cases ev)
    case (DataEvent chunk)
    obtain st1 acts1 where o: "onData parse st chunk = (st1, acts1)"
      by (cases "onData parse st chunk")
    have b1: "buffer st1 = afterLastNewline (buffer st @ chunk)"
      using onData_buffer[of parse st chunk] o by simp
    then have "newline \<notin> set (buffer st1)"
      by (simp add: afterLastNewline_no_newline)
    then have "buffer (fst (run parse st1 events)) = afterLastNewline (buffer st1 @ received events)"
      by (rule Cons.IH)
    also have "\<dots> = afterLastNewline ((buffer st @ chunk) @ received events)"
      unfolding b1 by (rule afterLastNewline_absorb)
    finally show ?thesis
      using DataEvent o by (simp add: split_beta)
  next
    case (TagsResult streamTags)
    let ?st1 = "fst (onTagsResult st streamTags)"
    have b1: "buffer ?st1 = buffer st"
      by (simp add: onTagsResult_def)
    with Cons.prems have "newline \<notin> set (buffer ?st1)"
      by simp
    then have "buffer (fst (run parse ?st1 events)) = afterLastNewline (buffer ?st1 @ received events)"
      by (rule Cons.IH)
    with TagsResult b1 show ?thesis
      by (simp add: split_beta)
  qed
qed

lemma run_data: "run parse st (map DataEvent chunks) = feed parse st chunks"
  by (induction chunks arbitrary: st) (simp_all add: split_beta)

section \<open>Facts about the exclusion filter and the extractor\<close>

lemma isWhiteSpace_of_char:
  "isWhiteSpace c \<Longrightarrow> (of_char c :: nat) \<in> {9, 10, 11, 12, 13, 32, 160}"
  by (auto simp: isWhiteSpace_def)

lemma of_char_toLowerChar:
  "isUpperChar c \<Longrightarrow> of_char (toLowerChar c) = of_char c + (32::nat)"
  by (auto simp: toLowerChar_def isUpperChar_def Let_def)

lemma isWhiteSpace_toLowerChar: "isWhiteSpace (toLowerChar c) = isWhiteSpace c"
proof (cases "isUpperChar c")
  case False
  then show ?thesis
    by (simp add: toLowerChar_def)
next
  case True
  have a: "\<not> isWhiteSpace c"
    using True isWhiteSpace_of_char[of c] by (auto simp: isUpperChar_def Let_def)
  have b: "\<not> isWhiteSpace (toLowerChar c)"
    using True isWhiteSpace_of_char[of "toLowerChar c"] of_char_toLowerChar[OF True]
    by (auto simp: isUpperChar_def Let_def)
  from a b show ?thesis
    by simp
qed

lemma dropWhile_toLowerCase:
  "dropWhile isWhiteSpace (toLowerCase s) = toLowerCase (dropWhile isWhiteSpace s)"
  by (simp add: toLowerCase_def dropWhile_map comp_def isWhiteSpace_toLowerChar)

lemma trim_toLowerCase: "trim (toLowerCase s) = toLowerCase (trim s)"
proof -
  have r: "rev (toLowerCase s) = toLowerCase (rev s)" for s
    by (simp add: toLowerCase_def rev_map)
  show ?thesis
    by (simp add: trim_def dropWhile_toLowerCase r)
qed

lemma shouldExcludeWord_trim: "shouldExcludeWord (trim word) = shouldExcludeWord word"
  by (simp add: shouldExcludeWord_def trim_toLowerCase[symmetric] trim_idem)

lemma set_insertByCount: "set (insertByCount cnt a bs) = insert a (set bs)"
  by (induction bs) auto

lemma set_sortByCount:
  assumes "\<forall>cmp xs. set (engineSort cmp xs) \<subseteq> set xs"
  shows "set (sortByCount engineSort cnt ws) \<subseteq> set ws"
proof -
  have "set (foldl (\<lambda>sorted a. insertByCount cnt a sorted) acc ws) = set acc \<union> set ws" for acc
    by (induction ws arbitrary: acc) (auto simp: set_insertByCount)
  from this[of "[]"] assms show ?thesis
    by (simp add: sortByCount_def)
qed

lemma extractKeywords_passes:
  assumes "\<forall>cmp xs. set (engineSort cmp xs) \<subseteq> set xs"
    and "kw \<in> set (extractKeywords engineSort text)"
  shows "\<not> shouldExcludeWord kw"
proof -
  let ?filteredWords = "filter (\<lambda>word. \<not> shouldExcludeWord word)
      (uniqSeen [] (filter (\<lambda>word. word \<noteq> ''__proto__'') (keywordWords text)))"
  from assms(2) have
    "kw \<in> set (sortByCount engineSort (wordCount (keywordWords text)) ?filteredWords)"
    by (simp add: extractKeywords_def Let_def)
  with set_sortByCount[OF assms(1)] have "kw \<in> set ?filteredWords"
    by blast
  then show ?thesis
    by simp
qed

lemma keywordTags_pass:
  assumes "\<And>kw. kw \<in> set keywords \<Longrightarrow> \<not> shouldExcludeWord kw"
    and "tag \<in> set (keywordTags maxTags keywords)"
  shows "\<not> shouldExcludeWord (trim (stripHash tag))"
proof -
  from assms(2) obtain kw where kw: "kw \<in> set (take maxTags keywords)" "tag = CHR ''#'' # kw"
    by (auto simp: keywordTags_def)
  then have "kw \<in> set keywords"
    by (auto dest: in_set_takeD)
  with assms(1) kw(2) show ?thesis
    by (simp add: stripHash_def shouldExcludeWord_trim)
qed

lemma userCandidates_pass:
  assumes "\<forall>cmp xs. set (engineSort cmp xs) \<subseteq> set xs"
    and "userCandidates engineSort message maxTags = Some candidates" and "tag \<in> set candidates"
  shows "\<not> shouldExcludeWord (trim (stripHash tag))"
proof (cases "length (extractHashtagsFromText message maxTags) > 0")
  case True
  with assms(2,3) show ?thesis
    by (auto simp: userCandidates_def Let_def passesExclusion_def)
next
  case False
  with assms(2,3) have "tag \<in> set (keywordTags maxTags (extractKeywords engineSort message))"
    by (auto simp: userCandidates_def Let_def split: if_splits)
  then show ?thesis
    by (rule keywordTags_pass[rotated]) (rule extractKeywords_passes[OF assms(1)])
qed

lemma responseCandidates_pass:
  assumes "tag \<in> set (snd (responseCandidates engineSort response maxTags))"
  shows "\<not> shouldExcludeWord (trim (stripHash tag))"
proof -
  obtain content found where f: "extractHashtagsFromResponse response = (content, found)"
    by (cases "extractHashtagsFromResponse response")
  show ?thesis
  proof (cases "length found = 0")
    case True
    with assms f have "tag \<in> set (keywordTags maxTags
        (filter (\<lambda>keyword. \<not> shouldExcludeWord keyword) (extractKeywords engineSort response)))"
      by (simp add: responseCandidates_def)
    then show ?thesis
      by (rule keywordTags_pass[rotated]) simp
  next
    case False
    with assms f show ?thesis
      by (auto simp: responseCandidates_def passesExclusion_def Let_def)
  qed
qed

lemma not_excluded_meaning:
  assumes "\<not> shouldExcludeWord word"
  shows "trim (toLowerCase word) \<notin> set COMMON_WORDS_TO_EXCLUDE
       \<and> length (trim (toLowerCase word)) \<ge> 3
       \<and> \<not> list_all isDigit (trim (toLowerCase word))"
  using assms by (auto simp: shouldExcludeWord_def Let_def split: if_splits)

declare tokensOf.simps [simp del] splitOn.simps [simp del]

lemma whitespace_is_separator: "isWhiteSpace c \<Longrightarrow> isTagSeparator c"
  by (simp add: isTagSeparator_def)

lemma tokensOf_Nil: "tokensOf [] = []"
  by (simp add: tokensOf.simps)

lemma tokensOf_sep: "isTagSeparator c \<Longrightarrow> tokensOf (c # cs) = tokensOf cs"
  by (simp add: tokensOf.simps)

lemma tokensOf_seps: "list_all isTagSeparator w \<Longrightarrow> tokensOf (w @ s) = tokensOf s"
  by (induction w) (auto simp: tokensOf_sep)

lemma tokensOf_dropWhile: "tokensOf (dropWhile isWhiteSpace s) = tokensOf s"
  by (induction s) (auto simp: tokensOf_sep whitespace_is_separator)

lemma tokensOf_word:
  assumes "cur \<noteq> []" "\<forall>x \<in> set cur. \<not> isTagSeparator x" "s = [] \<or> isTagSeparator (hd s)"
  shows "tokensOf (cur @ s) = cur # tokensOf s"
proof -
  obtain c cs where cur: "cur = c # cs"
    using assms(1) by (cases cur) auto
  have tw: "takeWhile (\<lambda>x. \<not> isTagSeparator x) (cs @ s) = cs"
    using assms(2,3) cur by (cases s) (auto simp: takeWhile_append2 takeWhile_tail)
  have dw: "dropWhile (\<lambda>x. \<not> isTagSeparator x) (cs @ s) = s"
    using assms(2,3) cur by (cases s) (auto simp: dropWhile_append2)
  have "\<not> isTagSeparator c"
    using assms(2) cur by simp
  then have "tokensOf (c # cs @ s) = (c # cs) # tokensOf s"
    by (simp add: tokensOf.simps tw dw)
  with cur show ?thesis
    by simp
qed

lemma tokensOf_trailing: "list_all isTagSeparator w \<Longrightarrow> tokensOf (s @ w) = tokensOf s"
proof (induction s rule: tokensOf.induct)
  case 1
  then show ?case
    using tokensOf_seps[of w "[]"] by simp
next
  case (2 c cs)
  show ?case
  proof (cases "isTagSeparator c")
    case True
    with 2 show ?thesis
      by (simp add: tokensOf_sep)
  next
    case False
    let ?P = "\<lambda>x. \<not> isTagSeparator x"
    have w: "takeWhile ?P w = []" "dropWhile ?P w = w"
      using 2(3) by (cases w; simp)+
    have tw: "takeWhile ?P (cs @ w) = takeWhile ?P cs"
    proof (cases "\<forall>x \<in> set cs. ?P x")
      case True
      then have a: "takeWhile ?P cs = cs"
        by (simp add: takeWhile_eq_all_conv)
      from True have b: "takeWhile ?P (cs @ w) = cs @ takeWhile ?P w"
        by (simp add: takeWhile_append2)
      show ?thesis
        unfolding b a w by simp
    next
      case False
      then obtain x where "x \<in> set cs" "\<not> ?P x"
        by blast
      then show ?thesis
        by (rule takeWhile_append1)
    qed
    have dw: "dropWhile ?P (cs @ w) = dropWhile ?P cs @ w"
    proof (cases "\<forall>x \<in> set cs. ?P x")
      case True
      then have a: "dropWhile ?P cs = []"
        by simp
      from True have b: "dropWhile ?P (cs @ w) = dropWhile ?P w"
        by (simp add: dropWhile_append2)
      show ?thesis
        unfolding b a w by simp
    next
      case False
      then obtain x where "x \<in> set cs" "\<not> ?P x"
        by blast
      then show ?thesis
        by (rule dropWhile_append1)
    qed
    have "tokensOf (dropWhile ?P cs @ w) = tokensOf (dropWhile ?P cs)"
      using 2(2)[OF False 2(3)] .
    with False show ?thesis
      by (simp add: tokensOf.simps tw dw)
  qed
qed

lemma trim_decompose: "\<exists>w. list_all isWhiteSpace w \<and> dropWhile isWhiteSpace s = trim s @ w"
proof -
  let ?d = "dropWhile isWhiteSpace s"
  have "rev (dropWhile isWhiteSpace (rev ?d)) @ rev (takeWhile isWhiteSpace (rev ?d))
      = rev (takeWhile isWhiteSpace (rev ?d) @ dropWhile isWhiteSpace (rev ?d))"
    by (simp only: rev_append)
  also have "\<dots> = rev (rev ?d)"
    by (simp only: takeWhile_dropWhile_id)
  also have "\<dots> = ?d"
    by simp
  finally have "?d = trim s @ rev (takeWhile isWhiteSpace (rev ?d))"
    by (simp only: trim_def)
  moreover have "list_all isWhiteSpace (rev (takeWhile isWhiteSpace (rev ?d)))"
    by (auto simp: list_all_iff dest: set_takeWhileD)
  ultimately show ?thesis
    by blast
qed

lemma tokensOf_trim: "tokensOf (trim s) = tokensOf s"
proof -
  from trim_decompose[of s] obtain w where
    w: "list_all isWhiteSpace w" "dropWhile isWhiteSpace s = trim s @ w"
    by blast
  from w(1) have "list_all isTagSeparator w"
    by (auto simp: list_all_iff whitespace_is_separator)
  then have "tokensOf (trim s @ w) = tokensOf (trim s)"
    by (rule tokensOf_trailing)
  with w(2) tokensOf_dropWhile[of s] show ?thesis
    by simp
qed

lemma splitOn_tokens:
  "\<forall>x \<in> set cur. \<not> isTagSeparator x \<Longrightarrow>
   filter (\<lambda>t. t \<noteq> []) (splitOn isTagSeparator cur s) = tokensOf (cur @ s)
   \<and> (\<forall>t \<in> set (splitOn isTagSeparator cur s). \<forall>x \<in> set t. \<not> isTagSeparator x)"
proof (induction isTagSeparator cur s rule: splitOn.induct)
  case (1 cur)
  then show ?case
    using tokensOf_word[of cur "[]"]
    by (cases "cur = []") (auto simp: splitOn.simps tokensOf_Nil)
next
  case (2 cur c cs)
  show ?case
  proof (cases "isTagSeparator c")
    case True
    have ih: "filter (\<lambda>t. t \<noteq> []) (splitOn isTagSeparator [] (dropWhile isWhiteSpace cs))
          = tokensOf (dropWhile isWhiteSpace cs)
        \<and> (\<forall>t \<in> set (splitOn isTagSeparator [] (dropWhile isWhiteSpace cs)).
              \<forall>x \<in> set t. \<not> isTagSeparator x)"
      using 2(1)[OF True] by simp
    have "tokensOf (cur @ c # cs) = (if cur = [] then [] else [cur]) @ tokensOf cs"
      using tokensOf_word[of cur "c # cs"] 2(3) True
      by (cases "cur = []") (auto simp: tokensOf_sep)
    with ih True 2(3) show ?thesis
      by (auto simp: splitOn.simps tokensOf_dropWhile)
  next
    case False
    with 2(2)[OF False] 2(3) show ?thesis
      by (simp add: splitOn.simps)
  qed
qed

lemma trim_no_whitespace: "\<forall>x \<in> set t. \<not> isWhiteSpace x \<Longrightarrow> trim t = t"
proof (cases "t = []")
  case True
  then show ?thesis
    by (simp add: trim_def)
next
  case False
  assume "\<forall>x \<in> set t. \<not> isWhiteSpace x"
  with False show ?thesis
    by (intro trim_fixed) auto
qed

lemma marker_tokens:
  "filter (\<lambda>tag. length tag > 0) (map trim (splitOn isTagSeparator [] (trim sec)))
     = tokensOf sec"
proof -
  let ?ts = "splitOn isTagSeparator [] (trim sec)"
  from splitOn_tokens[of "[]" "trim sec"] have
    f: "filter (\<lambda>t. t \<noteq> []) ?ts = tokensOf (trim sec)"
    and n: "\<forall>t \<in> set ?ts. \<forall>x \<in> set t. \<not> isTagSeparator x"
    by simp_all
  have "map trim ?ts = map (\<lambda>t. t) ?ts"
  proof (rule map_cong[OF refl])
    fix t
    assume "t \<in> set ?ts"
    with n have "\<forall>x \<in> set t. \<not> isWhiteSpace x"
      using whitespace_is_separator by blast
    then show "trim t = t"
      by (rule trim_no_whitespace)
  qed
  then have "map trim ?ts = ?ts"
    by simp
  with f show ?thesis
    by (simp add: tokensOf_trim)
qed

lemma matchMarker_shape:
  assumes "matchMarker s = Some afterColon"
  shows "\<exists>gap1 word gap2. s = gap1 @ word @ gap2 @ CHR '':'' # afterColon
           \<and> list_all isWhiteSpace gap1 \<and> toLowerCase word = ''hashtags''
           \<and> list_all isWhiteSpace gap2"
proof -
  let ?s1 = "dropWhile isWhiteSpace s"
  let ?s2 = "dropWhile isWhiteSpace (drop 8 ?s1)"
  have m: "matchMarker s =
      (if toLowerCase (take 8 ?s1) = ''hashtags'' then
         (case ?s2 of [] \<Rightarrow> None | c # rest \<Rightarrow> if c = CHR '':'' then Some rest else None)
       else None)"
    by (simp only: matchMarker_def Let_def)
  have w: "toLowerCase (take 8 ?s1) = ''hashtags''"
  proof (rule ccontr)
    assume "toLowerCase (take 8 ?s1) \<noteq> ''hashtags''"
    with m have "matchMarker s = None"
      by (simp only: if_False)
    with assms show False
      by simp
  qed
  have c: "?s2 = CHR '':'' # afterColon"
  proof (cases ?s2)
    case Nil
    with m w have "matchMarker s = None"
      by (simp only: if_True list.case simp_thms)
    with assms show ?thesis
      by simp
  next
    case (Cons x rest)
    with m w have "matchMarker s = (if x = CHR '':'' then Some rest else None)"
      by (simp only: if_True list.case simp_thms)
    with assms have "x = CHR '':'' \<and> afterColon = rest"
      by (cases "x = CHR '':''") simp_all
    with Cons show ?thesis
      by (simp only:)
  qed
  have "s = takeWhile isWhiteSpace s @ ?s1"
    by simp
  moreover have "?s1 = take 8 ?s1 @ drop 8 ?s1"
    by simp
  moreover have "drop 8 ?s1 = takeWhile isWhiteSpace (drop 8 ?s1) @ ?s2"
    by simp
  ultimately have "s = takeWhile isWhiteSpace s @ take 8 ?s1
      @ takeWhile isWhiteSpace (drop 8 ?s1) @ CHR '':'' # afterColon"
    using c by metis
  moreover have "list_all isWhiteSpace (takeWhile isWhiteSpace s)"
    "list_all isWhiteSpace (takeWhile isWhiteSpace (drop 8 ?s1))"
    by (auto simp: list_all_iff dest: set_takeWhileD)
  ultimately show ?thesis
    using w by blast
qed

lemma sectionSplit_shape:
  "sectionSplit s = (sec, rest) \<Longrightarrow>
     s = sec @ rest \<and> (rest = [] \<or> rest = [newline] \<or> take 2 rest = [newline, newline])"
proof (induction s arbitrary: sec rest)
  case Nil
  then show ?case
    by simp
next
  case (Cons c cs)
  show ?case
  proof (cases "c = newline \<and> (cs = [] \<or> hd cs = newline)")
    case True
    with Cons.prems show ?thesis
      by (cases cs) auto
  next
    case False
    obtain a b where ab: "sectionSplit cs = (a, b)"
      by (cases "sectionSplit cs")
    with False Cons.prems have "sec = c # a" "rest = b"
      by auto
    with Cons.IH[OF ab] show ?thesis
      by simp
  qed
qed

lemma findMarker_shape:
  "findMarker leading s = Some (lead, sec, rest) \<Longrightarrow>
     \<exists>gap1 word gap2. leading @ s = lead @ CHR ''#'' # gap1 @ word @ gap2 @ CHR '':'' # sec @ rest
        \<and> list_all isWhiteSpace gap1 \<and> toLowerCase word = ''hashtags''
        \<and> list_all isWhiteSpace gap2
        \<and> (rest = [] \<or> rest = [newline] \<or> take 2 rest = [newline, newline])"
proof (induction s arbitrary: leading)
  case Nil
  then show ?case
    by simp
next
  case (Cons c cs)
  show ?case
  proof (cases "if c = CHR ''#'' then matchMarker cs else None")
    case None
    with Cons.prems have "findMarker (leading @ [c]) cs = Some (lead, sec, rest)"
      by simp
    from Cons.IH[OF this] show ?thesis
      by simp
  next
    case (Some afterColon)
    then have c: "c = CHR ''#''" and m: "matchMarker cs = Some afterColon"
      by (auto split: if_splits)
    obtain a b where ab: "sectionSplit afterColon = (a, b)"
      by (cases "sectionSplit afterColon")
    with Some Cons.prems have e: "lead = leading" "sec = a" "rest = b"
      by auto
    from matchMarker_shape[OF m] obtain gap1 word gap2 where
      g: "cs = gap1 @ word @ gap2 @ CHR '':'' # afterColon" "list_all isWhiteSpace gap1"
        "toLowerCase word = ''hashtags''" "list_all isWhiteSpace gap2"
      by blast
    from sectionSplit_shape[OF ab] e have
      s: "afterColon = sec @ rest"
        "rest = [] \<or> rest = [newline] \<or> take 2 rest = [newline, newline]"
      by simp_all
    have "leading @ c # cs = lead @ CHR ''#'' # gap1 @ word @ gap2 @ CHR '':'' # sec @ rest"
      using c e g(1) s(1) by simp
    with g s show ?thesis
      by blast
  qed
qed

lemma tokensOf_tokens:
  assumes "t \<in> set (tokensOf s)"
  shows "t \<noteq> [] \<and> (\<forall>x \<in> set t. \<not> isTagSeparator x)"
proof -
  from splitOn_tokens[of "[]" s] have
    f: "filter (\<lambda>t. t \<noteq> []) (splitOn isTagSeparator [] s) = tokensOf s"
    and n: "\<forall>t \<in> set (splitOn isTagSeparator [] s). \<forall>x \<in> set t. \<not> isTagSeparator x"
    by simp_all
  from assms f have "t \<in> set (filter (\<lambda>t. t \<noteq> []) (splitOn isTagSeparator [] s))"
    by simp
  with n show ?thesis
    by auto
qed

lemma hash_not_separator: "\<not> isTagSeparator CHR ''#''"
  by (simp add: isTagSeparator_def isWhiteSpace_def)

lemma prefixHash_token:
  assumes "t \<in> set (tokensOf s)"
  shows "startsWithHash (prefixHash t) \<and> (\<forall>x \<in> set (prefixHash t). \<not> isTagSeparator x)"
  using tokensOf_tokens[OF assms] hash_not_separator
  by (auto simp: prefixHash_def startsWithHash_def split: list.splits)

text \<open>
  The scan finds the first marker of the text and the section that follows it:
  \<open>matchMarker\<close> accepts exactly the texts that continue a marker after its \<^verbatim>\<open>#\<close>,
  \<open>findMarker\<close> returns nothing exactly when no part of the text is a marker, and what it
  returns is the text before the first marker and the section up to its first end.
\<close>

lemma matchMarker_complete:
  assumes g1: "list_all isWhiteSpace gap1" and w: "toLowerCase word = ''hashtags''"
    and g2: "list_all isWhiteSpace gap2"
  shows "matchMarker (gap1 @ word @ gap2 @ CHR '':'' # afterColon) = Some afterColon"
proof -
  let ?tail = "gap2 @ CHR '':'' # afterColon"
  from w have "length (toLowerCase word) = 8"
    by simp
  then have len: "length word = 8"
    by (simp add: toLowerCase_def)
  then obtain c cs where word: "word = c # cs"
    by (cases word) auto
  with w have "toLowerChar c = CHR ''h''"
    by (simp add: toLowerCase_def)
  with isWhiteSpace_toLowerChar[of c] have nc: "\<not> isWhiteSpace c"
    by (simp add: isWhiteSpace_def)
  have "dropWhile isWhiteSpace (gap1 @ word @ ?tail) = dropWhile isWhiteSpace (word @ ?tail)"
    using g1 by (intro dropWhile_append2) (simp add: list_all_iff)
  also have "\<dots> = word @ ?tail"
    using nc word by simp
  finally have d1: "dropWhile isWhiteSpace (gap1 @ word @ ?tail) = word @ ?tail" .
  have t: "take 8 (word @ ?tail) = word" and d: "drop 8 (word @ ?tail) = ?tail"
    using len by simp_all
  have "dropWhile isWhiteSpace ?tail = dropWhile isWhiteSpace (CHR '':'' # afterColon)"
    using g2 by (intro dropWhile_append2) (simp add: list_all_iff)
  also have "\<dots> = CHR '':'' # afterColon"
    by (simp add: isWhiteSpace_def)
  finally have d2: "dropWhile isWhiteSpace ?tail = CHR '':'' # afterColon" .
  show ?thesis
    unfolding matchMarker_def Let_def d1 t d d2 w by simp
qed

lemma marker_here:
  "(if c = CHR ''#'' then matchMarker cs else None) = Some afterColon
     \<longleftrightarrow> (\<exists>m. isMarker m \<and> c # cs = m @ afterColon)"
proof
  assume "(if c = CHR ''#'' then matchMarker cs else None) = Some afterColon"
  then have c: "c = CHR ''#''" and m: "matchMarker cs = Some afterColon"
    by (auto split: if_splits)
  from matchMarker_shape[OF m] obtain gap1 word gap2 where
    g: "cs = gap1 @ word @ gap2 @ CHR '':'' # afterColon" "list_all isWhiteSpace gap1"
      "toLowerCase word = ''hashtags''" "list_all isWhiteSpace gap2"
    by blast
  then have "isMarker (CHR ''#'' # gap1 @ word @ gap2 @ '':'')"
    unfolding isMarker_def by blast
  moreover have "c # cs = (CHR ''#'' # gap1 @ word @ gap2 @ '':'') @ afterColon"
    using c g(1) by simp
  ultimately show "\<exists>m. isMarker m \<and> c # cs = m @ afterColon"
    by blast
next
  assume "\<exists>m. isMarker m \<and> c # cs = m @ afterColon"
  then obtain gap1 word gap2 where
    g: "c # cs = (CHR ''#'' # gap1 @ word @ gap2 @ '':'') @ afterColon"
      "list_all isWhiteSpace gap1" "toLowerCase word = ''hashtags''" "list_all isWhiteSpace gap2"
    unfolding isMarker_def by blast
  from g(1) have c: "c = CHR ''#''" and cs: "cs = gap1 @ word @ gap2 @ CHR '':'' # afterColon"
    by simp_all
  from matchMarker_complete[OF g(2,3,4)] c cs
  show "(if c = CHR ''#'' then matchMarker cs else None) = Some afterColon"
    by simp
qed

lemma isMarker_nonempty: "isMarker m \<Longrightarrow> m \<noteq> []"
  by (auto simp: isMarker_def)

lemma isMarker_code [code]:
  "isMarker m \<longleftrightarrow>
     (case m of [] \<Rightarrow> False | c # cs \<Rightarrow> c = CHR ''#'' \<and> matchMarker cs = Some [])"
proof (cases m)
  case Nil
  then show ?thesis
    by (auto dest: isMarker_nonempty)
next
  case (Cons c cs)
  from marker_here[of c cs "[]"] have
    "(if c = CHR ''#'' then matchMarker cs else None) = Some [] \<longleftrightarrow> isMarker (c # cs)"
    by simp
  with Cons show ?thesis
    by (auto split: if_splits)
qed

lemma findMarker_None_iff:
  "findMarker leading s = None
     \<longleftrightarrow> \<not> (\<exists>lead m afterColon. s = lead @ m @ afterColon \<and> isMarker m)"
proof (induction s arbitrary: leading)
  case Nil
  then show ?case
    by (auto dest: isMarker_nonempty)
next
  case (Cons c cs)
  show ?case
  proof (cases "if c = CHR ''#'' then matchMarker cs else None")
    case (Some afterColon)
    then have "\<exists>m. isMarker m \<and> c # cs = m @ afterColon"
      by (simp only: marker_here)
    then obtain m where "isMarker m" "c # cs = [] @ m @ afterColon"
      by auto
    then have "\<exists>lead m afterColon. c # cs = lead @ m @ afterColon \<and> isMarker m"
      by blast
    moreover from Some have "findMarker leading (c # cs) \<noteq> None"
      by (simp split: prod.splits)
    ultimately show ?thesis
      by simp
  next
    case None
    then have f: "findMarker leading (c # cs) = findMarker (leading @ [c]) cs"
      by simp
    have "(\<exists>lead m afterColon. c # cs = lead @ m @ afterColon \<and> isMarker m)
        \<longleftrightarrow> (\<exists>lead m afterColon. cs = lead @ m @ afterColon \<and> isMarker m)"
    proof
      assume "\<exists>lead m afterColon. c # cs = lead @ m @ afterColon \<and> isMarker m"
      then obtain lead m afterColon where d: "c # cs = lead @ m @ afterColon" "isMarker m"
        by blast
      show "\<exists>lead m afterColon. cs = lead @ m @ afterColon \<and> isMarker m"
      proof (cases lead)
        case Nil
        with d have "\<exists>m. isMarker m \<and> c # cs = m @ afterColon"
          by auto
        then have "(if c = CHR ''#'' then matchMarker cs else None) = Some afterColon"
          by (simp only: marker_here)
        with None show ?thesis
          by simp
      next
        case (Cons x lead')
        with d have "cs = lead' @ m @ afterColon"
          by simp
        with d(2) show ?thesis
          by blast
      qed
    next
      assume "\<exists>lead m afterColon. cs = lead @ m @ afterColon \<and> isMarker m"
      then obtain lead m afterColon where "cs = lead @ m @ afterColon" "isMarker m"
        by blast
      then have "c # cs = (c # lead) @ m @ afterColon \<and> isMarker m"
        by simp
      then show "\<exists>lead m afterColon. c # cs = lead @ m @ afterColon \<and> isMarker m"
        by blast
    qed
    with f Cons.IH[of "leading @ [c]"] show ?thesis
      by simp
  qed
qed

lemma sectionEnd_Cons: "sectionEnd (c # cs) \<longleftrightarrow> c = newline \<and> (cs = [] \<or> hd cs = newline)"
  by (cases cs) (auto simp: sectionEnd_def)

lemma sectionSplit_first:
  "sectionSplit s = (sec, rest) \<Longrightarrow> n < length sec \<Longrightarrow> \<not> sectionEnd (drop n s)"
proof (induction s arbitrary: sec rest n)
  case Nil
  then show ?case
    by simp
next
  case (Cons c cs)
  show ?case
  proof (cases "c = newline \<and> (cs = [] \<or> hd cs = newline)")
    case True
    with Cons.prems show ?thesis
      by auto
  next
    case False
    obtain a b where ab: "sectionSplit cs = (a, b)"
      by (cases "sectionSplit cs")
    with False Cons.prems(1) have sec: "sec = c # a"
      by auto
    show ?thesis
    proof (cases n)
      case 0
      with False show ?thesis
        by (simp add: sectionEnd_Cons)
    next
      case (Suc k)
      with Cons.prems(2) sec have "k < length a"
        by simp
      from Cons.IH[OF ab this] Suc show ?thesis
        by simp
    qed
  qed
qed

lemma sectionSplit_unique:
  "sectionEnd rest \<Longrightarrow> \<forall>n < length sec. \<not> sectionEnd (drop n (sec @ rest))
     \<Longrightarrow> sectionSplit (sec @ rest) = (sec, rest)"
proof (induction sec)
  case Nil
  then show ?case
    by (cases rest) (simp_all add: sectionEnd_Cons)
next
  case (Cons c sec)
  from Cons.prems(2) have "\<not> sectionEnd (drop 0 ((c # sec) @ rest))"
    by blast
  then have no: "\<not> (c = newline \<and> (sec @ rest = [] \<or> hd (sec @ rest) = newline))"
    by (simp add: sectionEnd_Cons)
  have "\<forall>n < length sec. \<not> sectionEnd (drop n (sec @ rest))"
  proof (intro allI impI)
    fix n
    assume "n < length sec"
    then have "Suc n < length (c # sec)"
      by simp
    with Cons.prems(2) have "\<not> sectionEnd (drop (Suc n) ((c # sec) @ rest))"
      by blast
    then show "\<not> sectionEnd (drop n (sec @ rest))"
      by simp
  qed
  with Cons.IH Cons.prems(1) have "sectionSplit (sec @ rest) = (sec, rest)"
    by simp
  with no show ?case
    by simp
qed

lemma findMarker_first:
  assumes "isMarker m"
    and "\<forall>lead' m' after'. lead @ m @ afterColon = lead' @ m' @ after' \<and> isMarker m'
           \<longrightarrow> length lead \<le> length lead'"
  shows "findMarker leading (lead @ m @ afterColon)
       = Some (leading @ lead, sectionSplit afterColon)"
  using assms(2)
proof (induction lead arbitrary: leading)
  case Nil
  from assms(1) obtain c cs where m: "m = c # cs"
    by (cases m) (auto dest: isMarker_nonempty)
  with assms(1) have "\<exists>m'. isMarker m' \<and> c # (cs @ afterColon) = m' @ afterColon"
    by auto
  then have "(if c = CHR ''#'' then matchMarker (cs @ afterColon) else None) = Some afterColon"
    by (simp only: marker_here)
  with m show ?case
    by (simp split: prod.splits)
next
  case (Cons c lead)
  have none: "(if c = CHR ''#'' then matchMarker (lead @ m @ afterColon) else None) = None"
  proof (cases "if c = CHR ''#'' then matchMarker (lead @ m @ afterColon) else None")
    case None
    then show ?thesis .
  next
    case (Some a)
    then have "\<exists>m'. isMarker m' \<and> c # (lead @ m @ afterColon) = m' @ a"
      by (simp only: marker_here)
    then obtain m' where "isMarker m'" "(c # lead) @ m @ afterColon = [] @ m' @ a"
      by auto
    with Cons.prems have "length (c # lead) \<le> length ([] :: string)"
      by blast
    then show ?thesis
      by simp
  qed
  have "\<forall>lead' m' after'. lead @ m @ afterColon = lead' @ m' @ after' \<and> isMarker m'
          \<longrightarrow> length lead \<le> length lead'"
  proof (intro allI impI)
    fix lead' m' after'
    assume "lead @ m @ afterColon = lead' @ m' @ after' \<and> isMarker m'"
    then have "(c # lead) @ m @ afterColon = (c # lead') @ m' @ after' \<and> isMarker m'"
      by simp
    with Cons.prems have "length (c # lead) \<le> length (c # lead')"
      by blast
    then show "length lead \<le> length lead'"
      by simp
  qed
  from Cons.IH[OF this, of "leading @ [c]"] none show ?case
    by simp
qed

lemma findMarker_Some:
  assumes "findMarker leading s = Some (lead, sec, rest)"
  shows "\<exists>pre m afterColon. lead = leading @ pre \<and> isMarker m \<and> s = pre @ m @ afterColon
           \<and> sectionSplit afterColon = (sec, rest)
           \<and> (\<forall>lead' m' after'. s = lead' @ m' @ after' \<and> isMarker m'
                 \<longrightarrow> length pre \<le> length lead')"
  using assms
proof (induction s arbitrary: leading)
  case Nil
  then show ?case
    by simp
next
  case (Cons c cs)
  show ?case
  proof (cases "if c = CHR ''#'' then matchMarker cs else None")
    case (Some afterColon)
    then have "\<exists>m. isMarker m \<and> c # cs = m @ afterColon"
      by (simp only: marker_here)
    then obtain m where m: "isMarker m" "c # cs = [] @ m @ afterColon"
      by auto
    from Some Cons.prems have "lead = leading @ []" "sectionSplit afterColon = (sec, rest)"
      by (auto split: prod.splits)
    with m show ?thesis
      by (metis le0 list.size(3))
  next
    case None
    with Cons.prems have "findMarker (leading @ [c]) cs = Some (lead, sec, rest)"
      by simp
    from Cons.IH[OF this] obtain pre m afterColon where
      p: "lead = (leading @ [c]) @ pre" "isMarker m" "cs = pre @ m @ afterColon"
        "sectionSplit afterColon = (sec, rest)"
        "\<forall>lead' m' after'. cs = lead' @ m' @ after' \<and> isMarker m'
            \<longrightarrow> length pre \<le> length lead'"
      by blast
    have first: "length (c # pre) \<le> length lead'"
      if d: "c # cs = lead' @ m' @ after'" "isMarker m'" for lead' m' after'
    proof (cases lead')
      case Nil
      with d have "\<exists>m. isMarker m \<and> c # cs = m @ after'"
        by auto
      then have "(if c = CHR ''#'' then matchMarker cs else None) = Some after'"
        by (simp only: marker_here)
      with None show ?thesis
        by simp
    next
      case (Cons x l)
      with d have "cs = l @ m' @ after'"
        by simp
      with p(5) d(2) have "length pre \<le> length l"
        by blast
      with Cons show ?thesis
        by simp
    qed
    have "lead = leading @ (c # pre)" "c # cs = (c # pre) @ m @ afterColon"
      using p(1,3) by simp_all
    with p(2,4) first show ?thesis
      by blast
  qed
qed


lemma extractHashtagsFromResponse_marker:
  assumes "findMarker [] response = Some (lead, sec, rest)"
  shows "extractHashtagsFromResponse response
       = (trim (lead @ rest), map prefixHash (tokensOf sec))"
  using assms marker_tokens[of sec] by (simp add: extractHashtagsFromResponse_def)

lemma findMarker_found:
  assumes "findMarker [] response = Some (lead, sec, rest)"
  shows "(\<exists>m. isMarker m \<and> response = lead @ m @ sec @ rest)
       \<and> (\<forall>lead' m' after'. response = lead' @ m' @ after' \<and> isMarker m'
             \<longrightarrow> length lead \<le> length lead')
       \<and> sectionEnd rest \<and> (\<forall>n < length sec. \<not> sectionEnd (drop n (sec @ rest)))"
proof -
  from findMarker_Some[OF assms] obtain m afterColon where
    p: "isMarker m" "response = lead @ m @ afterColon" "sectionSplit afterColon = (sec, rest)"
      "\<forall>lead' m' after'. response = lead' @ m' @ after' \<and> isMarker m'
          \<longrightarrow> length lead \<le> length lead'"
    by auto
  from sectionSplit_shape[OF p(3)] have a: "afterColon = sec @ rest" and e: "sectionEnd rest"
    by (simp_all add: sectionEnd_def)
  have "\<forall>n < length sec. \<not> sectionEnd (drop n (sec @ rest))"
    using sectionSplit_first[OF p(3)] a by simp
  with p(1,2,4) a e show ?thesis
    by blast
qed

lemma findMarker_determined:
  assumes "response = lead @ m @ sec @ rest" and "isMarker m"
    and "\<forall>lead' m' after'. response = lead' @ m' @ after' \<and> isMarker m'
           \<longrightarrow> length lead \<le> length lead'"
    and "sectionEnd rest" and "\<forall>n < length sec. \<not> sectionEnd (drop n (sec @ rest))"
  shows "findMarker [] response = Some (lead, sec, rest)"
proof -
  from assms(1,3) have "\<forall>lead' m' after'. lead @ m @ sec @ rest = lead' @ m' @ after'
      \<and> isMarker m' \<longrightarrow> length lead \<le> length lead'"
    by simp
  from findMarker_first[OF assms(2) this, of "[]"] assms(1)
  have "findMarker [] response = Some (lead, sectionSplit (sec @ rest))"
    by simp
  with sectionSplit_unique[OF assms(4,5)] show ?thesis
    by simp
qed

section \<open>Facts about the tags that reach the resolver\<close>

text \<open>
  A plain tag is a \<^verbatim>\<open>#\<close> followed by at least one character, the first of them not a
  \<^verbatim>\<open>#\<close> and none of them whitespace: the shape of the inline hashtags, of the keyword
  tags, and of the tokens of a hashtag section that have at most one leading \<^verbatim>\<open>#\<close>.
\<close>

definition plainTag :: "string \<Rightarrow> bool" where
  "plainTag tag \<longleftrightarrow>
     (case tag of
        [] \<Rightarrow> False
      | c # body \<Rightarrow> c = CHR ''#'' \<and> body \<noteq> [] \<and> hd body \<noteq> CHR ''#''
                    \<and> list_all (\<lambda>x. \<not> isWhiteSpace x) body)"

lemma plainTagI:
  assumes "body \<noteq> []" and "\<forall>x \<in> set body. \<not> isWhiteSpace x \<and> x \<noteq> CHR ''#''"
  shows "plainTag (CHR ''#'' # body)"
  using assms by (cases body) (simp_all add: plainTag_def list_all_iff)

lemma isTagChar_plain: "isTagChar c \<Longrightarrow> \<not> isWhiteSpace c \<and> c \<noteq> CHR ''#''"
  using isWhiteSpace_of_char[of c]
  by (auto simp: isTagChar_def Let_def)

lemma isWordChar_plain: "isWordChar c \<Longrightarrow> \<not> isWhiteSpace c \<and> c \<noteq> CHR ''#''"
  using isWhiteSpace_of_char[of c]
  by (auto simp: isWordChar_def Let_def)

lemma matchHashtags_plain: "t \<in> set (matchHashtags s) \<Longrightarrow> plainTag t"
proof (induction s arbitrary: t rule: matchHashtags.induct)
  case 1
  then show ?case
    by (simp add: matchHashtags.simps)
next
  case (2 c cs)
  show ?case
  proof (cases "c = CHR ''#'' \<and> takeWhile isTagChar cs \<noteq> []")
    case True
    with 2(3) have "t = c # takeWhile isTagChar cs \<or> t \<in> set (matchHashtags (dropWhile isTagChar cs))"
      by (simp add: matchHashtags.simps)
    then show ?thesis
    proof
      assume t: "t = c # takeWhile isTagChar cs"
      have "\<forall>x \<in> set (takeWhile isTagChar cs). \<not> isWhiteSpace x \<and> x \<noteq> CHR ''#''"
        by (auto dest!: set_takeWhileD isTagChar_plain)
      with True t show ?thesis
        by (simp add: plainTagI)
    next
      assume "t \<in> set (matchHashtags (dropWhile isTagChar cs))"
      with 2(1)[OF True] show ?thesis
        by simp
    qed
  next
    case False
    with 2(3) have "t \<in> set (matchHashtags cs)"
      by (simp add: matchHashtags.simps)
    with 2(2)[OF False] show ?thesis
      by simp
  qed
qed

lemma set_uniqSeen: "set (uniqSeen seen xs) \<subseteq> set xs"
  by (induction xs arbitrary: seen) auto

lemma set_collectTags: "set (collectTags maxTags acc matches) \<subseteq> set acc \<union> set matches"
proof (induction matches arbitrary: acc)
  case Nil
  show ?case
    by simp
next
  case (Cons tag matches)
  let ?acc = "if length acc < maxTags \<and> tag \<notin> set acc then acc @ [tag] else acc"
  have "set (collectTags maxTags ?acc matches) \<subseteq> set ?acc \<union> set matches"
    by (rule Cons.IH)
  moreover have "set ?acc \<subseteq> set acc \<union> {tag}"
    by auto
  ultimately show ?case
    by auto
qed

lemma extractHashtagsFromText_plain:
  "t \<in> set (extractHashtagsFromText msg maxTags) \<Longrightarrow> plainTag t"
  using set_collectTags[of maxTags "[]" "matchHashtags msg"] matchHashtags_plain[of t msg]
  by (auto simp: extractHashtagsFromText_def)

lemma splitOn_pieces:
  "\<forall>x \<in> set cur. \<not> sep x \<and> P x \<Longrightarrow> \<forall>x \<in> set s. sep x \<or> P x \<Longrightarrow>
   \<forall>t \<in> set (splitOn sep cur s). \<forall>x \<in> set t. \<not> sep x \<and> P x"
proof (induction sep cur s rule: splitOn.induct)
  case (1 sep cur)
  then show ?case
    by (simp add: splitOn.simps)
next
  case (2 sep cur c cs)
  show ?case
  proof (cases "sep c")
    case True
    have "\<forall>x \<in> set (dropWhile isWhiteSpace cs). sep x \<or> P x"
      using 2(4) by (auto dest: set_dropWhileD)
    then have "\<forall>t \<in> set (splitOn sep [] (dropWhile isWhiteSpace cs)).
        \<forall>x \<in> set t. \<not> sep x \<and> P x"
      by (intro 2(1)[OF True]) simp_all
    moreover have "splitOn sep cur (c # cs) = cur # splitOn sep [] (dropWhile isWhiteSpace cs)"
      using True by (simp add: splitOn.simps)
    ultimately show ?thesis
      using 2(3) by simp
  next
    case False
    with 2(4) have "P c"
      by simp
    have eq: "splitOn sep cur (c # cs) = splitOn sep (cur @ [c]) cs"
      using False by (simp add: splitOn.simps)
    have pre: "\<forall>x \<in> set (cur @ [c]). \<not> sep x \<and> P x"
      using False \<open>P c\<close> 2(3) by simp
    have rest: "\<forall>x \<in> set cs. sep x \<or> P x"
      using 2(4) by simp
    from 2(2)[OF False pre rest] show ?thesis
      unfolding eq .
  qed
qed

lemma keywordWords_chars:
  assumes "w \<in> set (keywordWords msg)"
  shows "w \<noteq> [] \<and> list_all (\<lambda>x. \<not> isWhiteSpace x \<and> x \<noteq> CHR ''#'') w"
proof -
  let ?s = "map (\<lambda>c. if isWordChar c \<or> isWhiteSpace c then c else CHR '' '') (toLowerCase msg)"
  have sp: "isWhiteSpace CHR '' ''"
    by (simp add: isWhiteSpace_def)
  have "\<forall>x \<in> set ?s. isWhiteSpace x \<or> isWordChar x"
    using sp by auto
  then have all: "\<forall>t \<in> set (splitOn isWhiteSpace [] ?s). \<forall>x \<in> set t. \<not> isWhiteSpace x \<and> isWordChar x"
    by (intro splitOn_pieces) simp_all
  from assms have w: "w \<in> set (splitOn isWhiteSpace [] ?s)" and len: "length w \<ge> 3"
    by (simp_all add: keywordWords_def)
  from all w have c: "\<forall>x \<in> set w. isWordChar x"
    by blast
  from len have "w \<noteq> []"
    by auto
  moreover from c have "list_all (\<lambda>x. \<not> isWhiteSpace x \<and> x \<noteq> CHR ''#'') w"
    unfolding list_all_iff using isWordChar_plain by blast
  ultimately show ?thesis
    by simp
qed

lemma set_extractKeywords:
  assumes "\<forall>cmp xs. set (engineSort cmp xs) \<subseteq> set xs"
  shows "set (extractKeywords engineSort msg) \<subseteq> set (keywordWords msg)"
proof
  fix kw
  let ?distinctWords = "uniqSeen [] (filter (\<lambda>word. word \<noteq> ''__proto__'') (keywordWords msg))"
  let ?filteredWords = "filter (\<lambda>word. \<not> shouldExcludeWord word) ?distinctWords"
  assume "kw \<in> set (extractKeywords engineSort msg)"
  then have "kw \<in> set (sortByCount engineSort (wordCount (keywordWords msg)) ?filteredWords)"
    by (simp add: extractKeywords_def Let_def)
  with set_sortByCount[OF assms] have "kw \<in> set ?filteredWords"
    by blast
  then have "kw \<in> set ?distinctWords"
    by simp
  with set_uniqSeen[of "[]" "filter (\<lambda>word. word \<noteq> ''__proto__'') (keywordWords msg)"]
  show "kw \<in> set (keywordWords msg)"
    by auto
qed

lemma keywordTags_plain:
  assumes "set keywords \<subseteq> set (keywordWords msg)" "t \<in> set (keywordTags maxTags keywords)"
  shows "plainTag t"
proof -
  from assms(2) obtain kw where kw: "kw \<in> set (take maxTags keywords)" "t = CHR ''#'' # kw"
    by (auto simp: keywordTags_def)
  then have "kw \<in> set (keywordWords msg)"
    using assms(1) by (auto dest: in_set_takeD)
  from keywordWords_chars[OF this] kw(2) show ?thesis
    by (simp add: plainTagI list_all_iff)
qed

lemma plainTag_cases:
  assumes "plainTag tag"
  obtains body where "tag = CHR ''#'' # body" "body \<noteq> []" "hd body \<noteq> CHR ''#''"
    "\<forall>x \<in> set body. \<not> isWhiteSpace x"
  using assms by (cases tag) (auto simp: plainTag_def list_all_iff)

lemma plainTag_trim:
  assumes "plainTag tag"
  shows "trim tag = tag"
proof -
  from assms obtain body where t: "tag = CHR ''#'' # body"
    and b: "\<forall>x \<in> set body. \<not> isWhiteSpace x"
    by (rule plainTag_cases)
  have "\<forall>x \<in> set tag. \<not> isWhiteSpace x"
    using t b by (simp add: hash_not_space)
  then show ?thesis
    by (rule trim_no_whitespace)
qed

lemma plainTag_normalized:
  assumes "plainTag tag"
  shows "prefixHash (trim tag) = tag \<and> length tag > 1"
proof -
  from assms obtain body where t: "tag = CHR ''#'' # body" and ne: "body \<noteq> []"
    by (rule plainTag_cases)
  have "prefixHash tag = tag"
    using t by (simp add: prefixHash_def startsWithHash_def)
  moreover have "length tag > 1"
    using t ne by (cases body) simp_all
  ultimately show ?thesis
    using plainTag_trim[OF assms] by simp
qed

lemma normalizedStrings_plain:
  "\<forall>c \<in> set cs. plainTag c \<Longrightarrow> normalizedStrings cs = cs"
proof (induction cs)
  case Nil
  show ?case
    by (simp add: normalizedStrings_def)
next
  case (Cons c cs)
  from Cons.prems have "plainTag c"
    by simp
  then have c: "prefixHash (trim c) = c" "length c > 1"
    using plainTag_normalized[of c] by simp_all
  from Cons have "normalizedStrings cs = cs"
    by simp
  with c show ?case
    by (simp add: normalizedStrings_def)
qed

lemma toLowerChar_hash: "toLowerChar x = CHR ''#'' \<Longrightarrow> x = CHR ''#''"
proof (cases "isUpperChar x")
  case False
  assume "toLowerChar x = CHR ''#''"
  with False show ?thesis
    by (simp add: toLowerChar_def)
next
  case True
  assume a: "toLowerChar x = CHR ''#''"
  from of_char_toLowerChar[OF True] a have "(35::nat) = of_char x + 32"
    by simp
  with True show ?thesis
    by (simp add: isUpperChar_def Let_def)
qed

lemma toLowerChar_idem: "toLowerChar (toLowerChar c) = toLowerChar c"
proof (cases "isUpperChar c")
  case False
  then show ?thesis
    by (simp add: toLowerChar_def)
next
  case True
  from of_char_toLowerChar[OF True] True have "\<not> isUpperChar (toLowerChar c)"
    by (auto simp: isUpperChar_def Let_def)
  then show ?thesis
    by (simp add: toLowerChar_def)
qed

lemma toLowerCase_idem: "toLowerCase (toLowerCase s) = toLowerCase s"
  by (simp add: toLowerCase_def toLowerChar_idem)

lemma shouldExcludeWord_lower: "shouldExcludeWord (toLowerCase word) = shouldExcludeWord word"
  by (simp add: shouldExcludeWord_def toLowerCase_idem)

lemma formatClean_plain: "plainTag tag \<Longrightarrow> formatClean tag = tag"
proof (erule plainTag_cases)
  fix body
  assume t: "tag = CHR ''#'' # body" and ne: "body \<noteq> []"
    and h: "hd body \<noteq> CHR ''#''"
    and b: "\<forall>x \<in> set body. \<not> isWhiteSpace x"
  have "\<forall>x \<in> set tag. \<not> isWhiteSpace x"
    using t b by (simp add: hash_not_space)
  then have tr: "trim tag = tag"
    by (rule trim_no_whitespace)
  have sh: "stripHashes tag = stripHashes body"
    using t by (simp add: stripHashes_def)
  from ne h have "stripHashes body = body"
    by (rule stripHashes_fixed)
  with tr sh show ?thesis
    using t ne by (simp add: formatClean_def)
qed

lemma lowered_candidate:
  assumes "plainTag c" "\<not> shouldExcludeWord (trim (stripHash c))"
  shows "plainTag (CHR ''#'' # cleanTagOf c)
       \<and> \<not> shouldExcludeWord (stripHash (CHR ''#'' # cleanTagOf c))"
proof -
  from assms(1) obtain body where c: "c = CHR ''#'' # body" and ne: "body \<noteq> []"
    and h: "hd body \<noteq> CHR ''#''"
    and b: "\<forall>x \<in> set body. \<not> isWhiteSpace x"
    by (rule plainTag_cases)
  have s: "stripHash c = body"
    using c by (simp add: stripHash_def)
  from b have t: "trim body = body"
    by (rule trim_no_whitespace)
  have cl: "cleanTagOf c = toLowerCase body"
    by (simp add: cleanTagOf_def s t)
  have "\<forall>x \<in> set (toLowerCase body). \<not> isWhiteSpace x"
    using b by (auto simp: toLowerCase_def isWhiteSpace_toLowerChar)
  moreover have "hd (toLowerCase body) \<noteq> CHR ''#''"
    using ne h by (cases body) (auto simp: toLowerCase_def dest: toLowerChar_hash)
  ultimately have p: "plainTag (CHR ''#'' # toLowerCase body)"
    using ne by (simp add: plainTag_def list_all_iff toLowerCase_def)
  have "\<not> shouldExcludeWord (toLowerCase body)"
    using assms(2) by (simp add: s t shouldExcludeWord_lower)
  with p cl show ?thesis
    by (simp add: stripHash_def)
qed

lemma plain_candidate_passes:
  assumes "plainTag c" "\<not> shouldExcludeWord (trim (stripHash c))"
  shows "\<not> shouldExcludeWord (stripHash c)"
proof -
  from assms(1) obtain body where c: "c = CHR ''#'' # body"
    and b: "\<forall>x \<in> set body. \<not> isWhiteSpace x"
    by (rule plainTag_cases)
  from b have "trim body = body"
    by (rule trim_no_whitespace)
  with assms(2) c show ?thesis
    by (simp add: stripHash_def)
qed

lemma set_dedupSeen: "set (dedupSeen seen ts) \<subseteq> set ts"
  by (induction ts arbitrary: seen) auto

lemma resolved_elements:
  assumes "y \<in> set (resolved blockedRows synonymRows cs)"
  shows "y = ''#conversation''
       \<or> (\<exists>c \<in> set (normalizedStrings cs).
            y = CHR ''#'' # bestTagOf (buildSynonyms synonymRows) (cleanTagOf c))"
proof -
  let ?p = "dedupSeen [] (substituteOnce (map toLowerCase blockedRows)
              (buildSynonyms synonymRows) (normalizedStrings cs))"
  from assms have "y = ''#conversation'' \<or> y \<in> set ?p"
    by (auto simp: resolved_def Let_def split: if_splits)
  moreover have "set ?p \<subseteq> set (substituteOnce (map toLowerCase blockedRows)
              (buildSynonyms synonymRows) (normalizedStrings cs))"
    by (rule set_dedupSeen)
  ultimately show ?thesis
    by (auto simp: substituteOnce_def)
qed

lemma conversation_passes:
  "formatClean ''#conversation'' = ''#conversation''"
  "\<not> shouldExcludeWord (stripHash ''#conversation'')"
  by code_simp+

lemma fallback_tags_pass:
  "list_all (\<lambda>tag. \<not> shouldExcludeWord (stripHash tag))
     [''#chat'', ''#question'', ''#detailed'', ''#brief'', ''#discussion'', ''#topic'',
      ''#conversation'', ''#query'']"
  by code_simp

lemma generateFallbackHashtags_pass:
  assumes "tag \<in> set (generateFallbackHashtags pick message)"
  shows "\<not> shouldExcludeWord (stripHash tag)"
proof -
  let ?general = "[''#discussion'', ''#topic'', ''#conversation'', ''#query'']"
  have "pick mod 4 < length ?general"
    by simp
  then have "?general ! (pick mod 4) \<in> set ?general"
    by (rule nth_mem)
  with assms have "tag \<in> set [''#chat'', ''#question'', ''#detailed'', ''#brief'',
      ''#discussion'', ''#topic'', ''#conversation'', ''#query'']"
    by (auto simp: generateFallbackHashtags_def split: if_splits)
  with fallback_tags_pass show ?thesis
    unfolding list_all_iff by blast
qed

lemma resolveAndFormat_pass:
  assumes "\<forall>c \<in> set cands. plainTag c \<and> \<not> shouldExcludeWord (trim (stripHash c))"
  shows "\<exists>tags. resolveAndFormat d cands = Inr tags
           \<and> (\<forall>tag \<in> set tags.
                 \<not> shouldExcludeWord (stripHash tag)
                 \<or> (\<exists>rows k b. tag_synonyms d = Inr rows
                       \<and> lookupSynonym (buildSynonyms rows) k = Some b
                       \<and> tag = formatClean (CHR ''#'' # b)))"
proof -
  have n: "normalizedStrings cands = cands"
    using assms by (intro normalizedStrings_plain) simp
  have fmt: "formatHashtags (JArr (map JStr ys)) = Inr (filter (\<lambda>t. t \<noteq> []) (map formatClean ys))" for ys
    by (rule formatHashtags_strings)
  show ?thesis
  proof (cases "\<exists>brows srows. blocked_tags d = Inr brows \<and> tag_synonyms d = Inr srows")
    case True
    then obtain brows srows where db: "blocked_tags d = Inr brows" "tag_synonyms d = Inr srows"
      by blast
    let ?ys = "resolved brows srows cands"
    have r: "resolveAndFormat d cands = Inr (filter (\<lambda>t. t \<noteq> []) (map formatClean ?ys))"
      by (simp add: resolveAndFormat_def processHashtags_strings[OF db] fmt)
    have "\<not> shouldExcludeWord (stripHash (formatClean y))
          \<or> (\<exists>k b. lookupSynonym (buildSynonyms srows) k = Some b
                \<and> formatClean y = formatClean (CHR ''#'' # b))"
      if y: "y \<in> set ?ys" for y
    proof -
      from resolved_elements[OF y] n consider "y = ''#conversation''"
        | c where "c \<in> set cands" "y = CHR ''#'' # bestTagOf (buildSynonyms srows) (cleanTagOf c)"
        by auto
      then show ?thesis
      proof cases
        case 1
        then show ?thesis
          by (simp add: conversation_passes)
      next
        case (2 c)
        show ?thesis
        proof (cases "lookupSynonym (buildSynonyms srows) (cleanTagOf c)")
          case None
          with 2 have y': "y = CHR ''#'' # cleanTagOf c"
            by (simp add: bestTagOf_def)
          from 2(1) assms have "plainTag c" "\<not> shouldExcludeWord (trim (stripHash c))"
            by simp_all
          from lowered_candidate[OF this] y' have "plainTag y" "\<not> shouldExcludeWord (stripHash y)"
            by simp_all
          then show ?thesis
            by (simp add: formatClean_plain)
        next
          case (Some b)
          with 2 have "y = CHR ''#'' # b"
            by (simp add: bestTagOf_def)
          with Some show ?thesis
            by blast
        qed
      qed
    qed
    with r db show ?thesis
      by auto
  next
    case False
    then have "\<exists>e. blocked_tags d = Inl e \<or> tag_synonyms d = Inl e"
      by (cases "blocked_tags d"; cases "tag_synonyms d") auto
    then obtain e where "blocked_tags d = Inl e \<or> tag_synonyms d = Inl e"
      by blast
    from processHashtags_strings_down[OF this, of cands] n
    have r: "resolveAndFormat d cands = Inr (filter (\<lambda>t. t \<noteq> []) (map formatClean cands))"
      by (simp add: resolveAndFormat_def fmt)
    have "\<not> shouldExcludeWord (stripHash (formatClean c))" if "c \<in> set cands" for c
      using that assms plain_candidate_passes[of c] formatClean_plain[of c] by simp
    with r show ?thesis
      by auto
  qed
qed

lemma userCandidates_plain:
  assumes "\<forall>cmp xs. set (engineSort cmp xs) \<subseteq> set xs"
    and "userCandidates engineSort message maxTags = Some candidates" and "c \<in> set candidates"
  shows "plainTag c"
proof (cases "length (extractHashtagsFromText message maxTags) > 0")
  case True
  with assms(2,3) have "c \<in> set (extractHashtagsFromText message maxTags)"
    by (auto simp: userCandidates_def Let_def)
  then show ?thesis
    by (rule extractHashtagsFromText_plain)
next
  case False
  with assms(2,3) have "c \<in> set (keywordTags maxTags (extractKeywords engineSort message))"
    by (auto simp: userCandidates_def Let_def split: if_splits)
  with set_extractKeywords[OF assms(1)] show ?thesis
    by (rule keywordTags_plain)
qed

text \<open>
  The tags that \<open>extractHashtagsFromResponse\<close> finds start with \<^verbatim>\<open>#\<close> and hold no
  whitespace. One that has a single leading \<^verbatim>\<open>#\<close> and passes the filter of lines 373 to
  377 is a plain tag; the inline hashtags all have a single leading \<^verbatim>\<open>#\<close>.
\<close>

lemma found_shape:
  assumes "t \<in> set (snd (extractHashtagsFromResponse response))"
  shows "startsWithHash t \<and> (\<forall>x \<in> set t. \<not> isWhiteSpace x)"
proof (cases "findMarker [] response")
  case None
  with assms have "t \<in> set (uniqSeen [] (matchHashtags response))"
    by (simp add: extractHashtagsFromResponse_def)
  with set_uniqSeen[of "[]" "matchHashtags response"] have "plainTag t"
    by (auto intro: matchHashtags_plain)
  then show ?thesis
    by (rule plainTag_cases) (simp add: startsWithHash_def hash_not_space)
next
  case (Some triple)
  obtain lead sec rest where "triple = (lead, sec, rest)"
    by (cases triple)
  with Some have "findMarker [] response = Some (lead, sec, rest)"
    by simp
  from extractHashtagsFromResponse_marker[OF this] assms
  have "t \<in> set (map prefixHash (tokensOf sec))"
    by simp
  then obtain token where "token \<in> set (tokensOf sec)" "t = prefixHash token"
    by auto
  with prefixHash_token[of token sec] whitespace_is_separator show ?thesis
    by blast
qed

lemma found_plain:
  assumes "t \<in> set (snd (extractHashtagsFromResponse response))"
    and "\<not> startsWithHash (stripHash t)" and "passesExclusion t"
  shows "plainTag t"
proof -
  from found_shape[OF assms(1)] obtain body where t: "t = CHR ''#'' # body"
    and b: "\<forall>x \<in> set body. \<not> isWhiteSpace x"
    by (cases t) (auto simp: startsWithHash_def)
  from t have s: "stripHash t = body"
    by (simp add: stripHash_def)
  from assms(3) s have "trim body \<noteq> []"
    by (simp add: passesExclusion_def Let_def)
  then have ne: "body \<noteq> []"
    by (auto simp: trim_def)
  with assms(2) s have "hd body \<noteq> CHR ''#''"
    by (cases body) (simp_all add: startsWithHash_def)
  with t ne b show ?thesis
    by (simp add: plainTag_def list_all_iff)
qed

lemma inline_single_hash:
  assumes "findMarker [] response = None"
    and "t \<in> set (snd (extractHashtagsFromResponse response))"
  shows "\<not> startsWithHash (stripHash t)"
proof -
  from assms have "t \<in> set (uniqSeen [] (matchHashtags response))"
    by (simp add: extractHashtagsFromResponse_def)
  with set_uniqSeen[of "[]" "matchHashtags response"] have "plainTag t"
    by (auto intro: matchHashtags_plain)
  then show ?thesis
    by (rule plainTag_cases) (auto simp: stripHash_def startsWithHash_def split: list.splits)
qed

lemma responseCandidates_plain:
  assumes "\<forall>cmp xs. set (engineSort cmp xs) \<subseteq> set xs"
    and "\<forall>t \<in> set (snd (extractHashtagsFromResponse response)). \<not> startsWithHash (stripHash t)"
    and "c \<in> set (snd (responseCandidates engineSort response maxTags))"
  shows "plainTag c"
proof -
  obtain content found where f: "extractHashtagsFromResponse response = (content, found)"
    by (cases "extractHashtagsFromResponse response")
  show ?thesis
  proof (cases "length found = 0")
    case True
    with assms(3) f have "c \<in> set (keywordTags maxTags
        (filter (\<lambda>keyword. \<not> shouldExcludeWord keyword) (extractKeywords engineSort response)))"
      by (simp add: responseCandidates_def)
    moreover have "set (filter (\<lambda>keyword. \<not> shouldExcludeWord keyword)
          (extractKeywords engineSort response)) \<subseteq> set (keywordWords response)"
      using set_extractKeywords[OF assms(1), of response] by auto
    ultimately show ?thesis
      by (rule keywordTags_plain[rotated])
  next
    case False
    with assms(3) f have c: "c \<in> set found" "passesExclusion c"
      by (auto simp: responseCandidates_def)
    from c(1) f have m: "c \<in> set (snd (extractHashtagsFromResponse response))"
      by simp
    with assms(2) have "\<not> startsWithHash (stripHash c)"
      by blast
    with m c(2) show ?thesis
      by (intro found_plain)
  qed
qed

lemma set_filterBlockedTags: "set (filterBlockedTags d tags) \<subseteq> set tags"
  by (auto simp: filterBlockedTags_def Let_def)

section \<open>Claims\<close>

text \<open>
  C7. The tag normalizer is idempotent. The normalizer is \<open>formatHashtags\<close>: on a string it
  trims, strips all leading \<^verbatim>\<open>#\<close>, rejects an empty result and puts one \<^verbatim>\<open>#\<close> back.
  Applied to one tag (\<open>formatTag\<close>) and applied to a list of tags (\<open>formatHashtags\<close>),
  normalizing the normalized value returns it unchanged. The tags \<^verbatim>\<open>"##Foo "\<close> and
  \<^verbatim>\<open>"foo"\<close> normalize to \<^verbatim>\<open>#Foo\<close> and \<^verbatim>\<open>#foo\<close>, which are equal once the \<^verbatim>\<open>#\<close> is
  removed and both are lower-cased. The normalization at the entry of the resolver
  (\<open>normalizeTag\<close>, which trims and prefixes but keeps the \<^verbatim>\<open>#\<close> already there) is
  idempotent on strings as well.
\<close>

theorem C7_normalizer_idempotent:
  "(\<exists>t. formatTag (JStr s) = Inr t \<and> formatTag (JStr t) = Inr t)
   \<and> (\<exists>ys. formatHashtags (JArr (map JStr xs)) = Inr ys
          \<and> formatHashtags (JArr (map JStr ys)) = Inr ys)
   \<and> formatHashtags (JArr [JStr ''##Foo '']) = Inr [''#Foo'']
   \<and> formatHashtags (JArr [JStr ''foo'']) = Inr [''#foo'']
   \<and> toLowerCase (stripHash ''#Foo'') = toLowerCase (stripHash ''#foo'')
   \<and> (\<exists>t. normalizeTag (JStr s) = Inr t \<and> normalizeTag (JStr t) = Inr t)"
proof -
  have one: "\<exists>t. formatTag (JStr s) = Inr t \<and> formatTag (JStr t) = Inr t"
    by (simp add: formatTag_def formatClean_idem)
  let ?ys = "filter (\<lambda>t. t \<noteq> []) (map formatClean xs)"
  have "filter (\<lambda>t. t \<noteq> []) (map formatClean ?ys) = ?ys"
    by (induction xs) (auto simp: formatClean_idem)
  then have many: "\<exists>ys. formatHashtags (JArr (map JStr xs)) = Inr ys
          \<and> formatHashtags (JArr (map JStr ys)) = Inr ys"
    by (simp add: formatHashtags_strings)
  have e1: "formatHashtags (JArr [JStr ''##Foo '']) = Inr [''#Foo'']"
    by code_simp
  have e2: "formatHashtags (JArr [JStr ''foo'']) = Inr [''#foo'']"
    by code_simp
  have e3: "toLowerCase (stripHash ''#Foo'') = toLowerCase (stripHash ''#foo'')"
    by code_simp
  have entry: "\<exists>t. normalizeTag (JStr s) = Inr t \<and> normalizeTag (JStr t) = Inr t"
    by (simp add: normalizeTag_def prefixHash_trim_idem)
  from one many e1 e2 e3 entry show ?thesis
    by blast
qed

text \<open>
  C4. With a reachable store, the candidate list \<^verbatim>\<open>["#js"]\<close>, a synonym table whose entry
  for \<^verbatim>\<open>js\<close> is \<^verbatim>\<open>javascript\<close> and \<^verbatim>\<open>js\<close> not blocked, \<open>processHashtags\<close> returns
  exactly \<^verbatim>\<open>["#javascript"]\<close>. The substitution is one level deep for every list of
  strings and every table: the result is \<open>resolved\<close>, in which each candidate that is not
  blocked is looked up once (\<open>bestTagOf\<close>, through \<open>substituteOnce\<close>); and a single
  candidate whose clean form has the entry \<open>betterTag\<close> comes out as \<^verbatim>\<open>#\<close> followed by
  \<open>betterTag\<close>, whatever the table holds for \<open>betterTag\<close> itself.
\<close>

theorem C4_synonym_one_level:
  assumes "blocked_tags d = Inr blockedRows" and "tag_synonyms d = Inr synonymRows"
  shows "(''js'' \<notin> set (map toLowerCase blockedRows)
            \<and> buildSynonyms synonymRows ''js'' = Some ''javascript''
          \<longrightarrow> processHashtags d (JArr [JStr ''#js'']) = Inr [JStr ''#javascript''])
       \<and> processHashtags d (JArr (map JStr xs)) = Inr (map JStr (resolved blockedRows synonymRows xs))
       \<and> (length (prefixHash (trim s)) > 1
            \<and> cleanTagOf (prefixHash (trim s)) \<notin> set (map toLowerCase blockedRows)
            \<and> lookupSynonym (buildSynonyms synonymRows) (cleanTagOf (prefixHash (trim s)))
                = Some betterTag
          \<longrightarrow> processHashtags d (JArr [JStr s]) = Inr [JStr (CHR ''#'' # betterTag)])"
proof -
  have general: "processHashtags d (JArr (map JStr ys))
      = Inr (map JStr (resolved blockedRows synonymRows ys))"
    for ys
    by (rule processHashtags_strings[OF assms])
  have single: "processHashtags d (JArr [JStr t]) = Inr [JStr (CHR ''#'' # b)]"
    if "length (prefixHash (trim t)) > 1"
      and "cleanTagOf (prefixHash (trim t)) \<notin> set (map toLowerCase blockedRows)"
      and "lookupSynonym (buildSynonyms synonymRows) (cleanTagOf (prefixHash (trim t))) = Some b"
    for t b
  proof -
    have "resolved blockedRows synonymRows [t] = [CHR ''#'' # b]"
      using that
      by (simp add: resolved_def normalizedStrings_def substituteOnce_def bestTagOf_def)
    with general[of "[t]"] show ?thesis
      by simp
  qed
  have js: "prefixHash (trim ''#js'') = ''#js''" "cleanTagOf ''#js'' = ''js''"
    by code_simp+
  have example: "processHashtags d (JArr [JStr ''#js'']) = Inr [JStr ''#javascript'']"
    if "''js'' \<notin> set (map toLowerCase blockedRows)"
      and "buildSynonyms synonymRows ''js'' = Some ''javascript''"
  proof (rule single)
    show "length (prefixHash (trim ''#js'')) > 1"
      by (simp add: js)
    show "cleanTagOf (prefixHash (trim ''#js'')) \<notin> set (map toLowerCase blockedRows)"
      using that(1) by (simp add: js)
    show "lookupSynonym (buildSynonyms synonymRows) (cleanTagOf (prefixHash (trim ''#js'')))
        = Some ''javascript''"
      using that(2) by (simp add: js lookupSynonym_def)
  qed
  from general[of xs] single[of s betterTag] example show ?thesis
    by blast
qed

theorem C4_synonym_one_level_witness:
  "processHashtags
     \<lparr>blocked_tags = Inr [''Spam''],
      tag_synonyms = Inr [(''js'', ''javascript''), (''javascript'', ''ecmascript'')]\<rparr>
     (JArr [JStr ''#js'']) = Inr [JStr ''#javascript'']"
proof -
  let ?d = "\<lparr>blocked_tags = Inr [''Spam''],
      tag_synonyms = Inr [(''js'', ''javascript''), (''javascript'', ''ecmascript'')]\<rparr>"
  have a: "''js'' \<notin> set (map toLowerCase [''Spam''])"
    by code_simp
  have b: "buildSynonyms [(''js'', ''javascript''), (''javascript'', ''ecmascript'')] ''js''
      = Some ''javascript''"
    by code_simp
  from C4_synonym_one_level[of ?d "[''Spam'']"
      "[(''js'', ''javascript''), (''javascript'', ''ecmascript'')]" "[]" "[]" "[]"] a b
  show ?thesis
    by simp
qed

text \<open>
  C5. With a reachable store and a list of string candidates whose normalized list is not
  empty, if every normalized candidate is blocked, \<open>processHashtags\<close> returns the single
  default tag \<^verbatim>\<open>#conversation\<close>. Whatever the state of the store, the result is empty
  exactly when the normalized list is empty.
\<close>

theorem C5_default_fallback:
  "(blocked_tags d = Inr blockedRows \<and> tag_synonyms d = Inr synonymRows
      \<and> normalizedStrings xs \<noteq> []
      \<and> (\<forall>tag \<in> set (normalizedStrings xs). cleanTagOf tag \<in> set (map toLowerCase blockedRows))
    \<longrightarrow> processHashtags d (JArr (map JStr xs)) = Inr [JStr ''#conversation''])
   \<and> (processHashtags d (JArr (map JStr xs)) = Inr [] \<longleftrightarrow> normalizedStrings xs = [])"
proof -
  have all_blocked: "processHashtags d (JArr (map JStr xs)) = Inr [JStr ''#conversation'']"
    if db: "blocked_tags d = Inr blockedRows" "tag_synonyms d = Inr synonymRows"
      and ne: "normalizedStrings xs \<noteq> []"
      and bl: "\<forall>tag \<in> set (normalizedStrings xs). cleanTagOf tag \<in> set (map toLowerCase blockedRows)"
  proof -
    have "filter (\<lambda>tag. cleanTagOf tag \<notin> set (map toLowerCase blockedRows)) (normalizedStrings xs) = []"
      using bl by (simp add: filter_empty_conv)
    then have "resolved blockedRows synonymRows xs = [''#conversation'']"
      using ne by (simp add: resolved_def substituteOnce_def)
    then show ?thesis
      by (simp add: processHashtags_strings[OF db])
  qed
  have empty_iff: "processHashtags d (JArr (map JStr xs)) = Inr [] \<longleftrightarrow> normalizedStrings xs = []"
  proof (cases "blocked_tags d")
    case (Inl e)
    then show ?thesis
      using processHashtags_strings_down[of d e xs] by simp
  next
    case (Inr rows)
    note blocked = this
    show ?thesis
    proof (cases "tag_synonyms d")
      case (Inl e)
      then show ?thesis
        using processHashtags_strings_down[of d e xs] by simp
    next
      case (Inr srows)
      have "resolved rows srows xs = [] \<longleftrightarrow> normalizedStrings xs = []"
        by (auto simp: resolved_def Let_def dedupSeen_Nil_iff substituteOnce_def)
      then show ?thesis
        by (simp add: processHashtags_strings[OF blocked Inr])
    qed
  qed
  from all_blocked empty_iff show ?thesis
    by blast
qed

theorem C5_default_fallback_witness:
  "processHashtags \<lparr>blocked_tags = Inr [''BlockedWord''], tag_synonyms = Inr []\<rparr>
     (JArr (map JStr [''#blockedword''])) = Inr [JStr ''#conversation'']
   \<and> normalizedStrings [''#blockedword''] \<noteq> []"
proof -
  let ?d = "\<lparr>blocked_tags = Inr [''BlockedWord''], tag_synonyms = Inr []\<rparr>"
  have n: "normalizedStrings [''#blockedword''] = [''#blockedword'']"
    by code_simp
  have c: "cleanTagOf ''#blockedword'' \<in> set (map toLowerCase [''BlockedWord''])"
    by code_simp
  from C5_default_fallback[of ?d "[''BlockedWord'']" "[]" "[''#blockedword'']"] n c
  show ?thesis
    by simp
qed

text \<open>
  C6. When a query of the store is rejected (the first one, or the second after the first
  succeeded; in particular when every query is), \<open>processHashtags\<close> on an array of
  strings returns the normalized candidates: each one trimmed and prefixed with \<^verbatim>\<open>#\<close>
  unless it has one, the candidates that are blank after trimming left out, and nothing
  blocked, substituted or deduplicated. The result is a value, not an exception.
\<close>

theorem C6_store_unreachable:
  assumes "blocked_tags d = Inl e \<or> tag_synonyms d = Inl e"
  shows "processHashtags d (JArr (map JStr xs))
       = Inr (map JStr (filter (\<lambda>tag. length tag > 1) (map (\<lambda>s. prefixHash (trim s)) xs)))"
  using processHashtags_strings_down[OF assms, of xs]
  by (simp add: normalizedStrings_def)

theorem C6_store_unreachable_witness:
  "processHashtags \<lparr>blocked_tags = Inl DbError, tag_synonyms = Inl DbError\<rparr>
     (JArr (map JStr [''js'', '' #js '', ''Spam'', ''   '', ''js'']))
   = Inr (map JStr [''#js'', ''#js'', ''#Spam'', ''#js''])"
proof -
  have n: "filter (\<lambda>tag. length tag > 1)
             (map (\<lambda>s. prefixHash (trim s)) [''js'', '' #js '', ''Spam'', ''   '', ''js''])
         = [''#js'', ''#js'', ''#Spam'', ''#js'']"
    by code_simp
  from C6_store_unreachable[of "\<lparr>blocked_tags = Inl DbError, tag_synonyms = Inl DbError\<rparr>"
      DbError "[''js'', '' #js '', ''Spam'', ''   '', ''js'']"] n
  show ?thesis
    by simp
qed


text \<open>
  C9. After every data event the buffer is what follows the last newline of the old buffer
  extended by the chunk (\<open>afterLastNewline\<close>); when that string has no newline it is kept
  whole. Along any sequence of events that starts from a buffer without a newline, data
  events and answers to tag requests in any order, the buffer is what follows the last
  newline of everything received. The handler does on chunks taken one by one exactly
  what it does on their concatenation, state and actions alike, so no cut of the input
  into chunks loses a part of a segment.
\<close>

theorem C9_buffer_retention:
  "buffer (fst (onData parse st chunk)) = afterLastNewline (buffer st @ chunk)
   \<and> (newline \<notin> set (buffer st @ chunk) \<longrightarrow>
        buffer (fst (onData parse st chunk)) = buffer st @ chunk)
   \<and> (newline \<notin> set (buffer st) \<longrightarrow>
        buffer (fst (run parse st events)) = afterLastNewline (buffer st @ received events)
        \<and> feed parse st chunks = onData parse st (concat chunks))"
proof -
  have one: "buffer (fst (onData parse st chunk)) = afterLastNewline (buffer st @ chunk)"
    by (rule onData_buffer)
  have kept: "buffer (fst (onData parse st chunk)) = buffer st @ chunk"
    if "newline \<notin> set (buffer st @ chunk)"
    using that one afterLastNewline_free[of "buffer st @ chunk"] by simp
  have many: "buffer (fst (run parse st events)) = afterLastNewline (buffer st @ received events)
        \<and> feed parse st chunks = onData parse st (concat chunks)"
    if "newline \<notin> set (buffer st)"
    using feed_concat[OF that, of parse chunks] run_buffer[OF that, of parse events]
    by simp
  from one kept many show ?thesis
    by blast
qed

theorem C9_buffer_retention_witness:
  \<open>buffer (fst (run (\<lambda>s. None) initialState
       [DataEvent ''{"respon'', TagsResult [''#x''], DataEvent ''se":"Hel"}\<newline>{"resp'',
        DataEvent ''onse":'']))
     = ''{"response":''\<close>
proof -
  let ?events = \<open>[DataEvent ''{"respon'', TagsResult [''#x''], DataEvent ''se":"Hel"}\<newline>{"resp'',
        DataEvent ''onse":'']\<close>
  have a: "newline \<notin> set (buffer initialState)"
    by (simp add: initialState_def)
  have b: \<open>afterLastNewline (buffer initialState @ received ?events) = ''{"response":''\<close>
    by code_simp
  from C9_buffer_retention[of "\<lambda>s. None" initialState "[]" ?events "[]"] a
  have \<open>buffer (fst (run (\<lambda>s. None) initialState ?events))
     = afterLastNewline (buffer initialState @ received ?events)\<close>
    by blast
  also note b
  finally show ?thesis .
qed

text \<open>
  C8. Let the buffer extended by the chunk consist of a part \<open>before\<close> made of complete
  lines, a segment without a newline that is not blank and that \<^verbatim>\<open>JSON.parse\<close> rejects,
  its newline, and a part \<open>after\<close>. Then the handler returns what it returns on \<open>before\<close>
  followed by what it returns on \<open>after\<close> from the state reached, with one log entry for
  the rejected segment in between: the segment changes nothing in the state, nothing is
  emitted for it, the lines and the partial line after it are handled as usual, and the
  handler returns a state from which the next data event is handled.
\<close>

theorem C8_malformed_segment_skipped:
  assumes "newline \<notin> set segment" and "trim segment \<noteq> []" and "parse (trim segment) = None"
    and "before = [] \<or> last before = newline"
    and "buffer st @ chunk = before @ segment @ newline # after"
  shows "onData parse st chunk =
     (let (st1, acts1) = onData parse (st\<lparr>buffer := []\<rparr>) before;
          (st2, acts2) = onData parse st1 after
      in (st2, acts1 @ [LogParseError (problematicLine (trim segment))] @ acts2))"
proof -
  obtain lb rb where b: "linesAcc [] before = (lb, rb)"
    by (cases "linesAcc [] before")
  have rb: "rb = []"
  proof (cases "before = []")
    case True
    with b show ?thesis
      by simp
  next
    case False
    with assms(4) have "before = butlast before @ [newline]"
      by (metis append_butlast_last_id)
    then have "afterLastNewline before = []"
      by (metis afterLastNewline_snoc)
    with linesAcc_rest[of "[]" before] b show ?thesis
      by simp
  qed
  obtain la ra where a: "linesAcc [] after = (la, ra)"
    by (cases "linesAcc [] after")
  have seg: "linesAcc [] (segment @ newline # after) = (segment # la, ra)"
    using linesAcc_append[of "[]" segment "newline # after"] linesAcc_free[OF assms(1), of "[]"] a
    by simp
  have all: "linesAcc [] (buffer st @ chunk) = (lb @ segment # la, ra)"
    unfolding assms(5)
    using linesAcc_append[of "[]" before "segment @ newline # after"] b rb seg
    by simp
  obtain st1 acts1 where p1: "processLines parse st lb = (st1, acts1)"
    by (cases "processLines parse st lb")
  obtain st2 acts2 where p2: "processLines parse st1 la = (st2, acts2)"
    by (cases "processLines parse st1 la")
  have bad: "stepLine parse st1 segment = (st1, [LogParseError (problematicLine (trim segment))])"
    using assms(2,3) by (simp add: stepLine_def handleLine_def)
  have whole: "onData parse st chunk
      = (st2\<lparr>buffer := ra\<rparr>, acts1 @ [LogParseError (problematicLine (trim segment))] @ acts2)"
    using all p1 p2 bad by (simp add: onData_lines processLines_append)
  have first: "onData parse (st\<lparr>buffer := []\<rparr>) before = (st1\<lparr>buffer := []\<rparr>, acts1)"
    using b rb p1 by (simp add: onData_lines processLines_buffer)
  have second: "onData parse (st1\<lparr>buffer := []\<rparr>) after = (st2\<lparr>buffer := ra\<rparr>, acts2)"
    using a p2 by (simp add: onData_lines processLines_buffer)
  from whole first second show ?thesis
    by simp
qed



theorem C8_malformed_segment_skipped_witness:
  \<open>onData exampleParse initialState ''{"response":"Hel"}\<newline> {nope \<newline>{"response":"lo"}\<newline>''
   = (\<lparr>fullResponse = ''Hello'', chunkCount = 2, contentExtracted = False, buffer = []\<rparr>,
      [Emit (MessageChunk (JStr ''Hel'') False JUndefined), LogParseError ''{nope'',
       Emit (MessageChunk (JStr ''lo'') False JUndefined)])\<close>
proof -
  let ?before = \<open>''{"response":"Hel"}\<newline>''\<close>
  let ?after = \<open>''{"response":"lo"}\<newline>''\<close>
  let ?chunk = \<open>''{"response":"Hel"}\<newline> {nope \<newline>{"response":"lo"}\<newline>''\<close>
  have h1: "newline \<notin> set '' {nope ''"
    by code_simp
  have h2: "trim '' {nope '' \<noteq> []"
    by code_simp
  have h3: "exampleParse (trim '' {nope '') = None"
    by code_simp
  have h4: "?before = [] \<or> last ?before = newline"
    by code_simp
  have h5: "buffer initialState @ ?chunk = ?before @ '' {nope '' @ newline # ?after"
    by code_simp
  have r: "(let (st1, acts1) = onData exampleParse (initialState\<lparr>buffer := []\<rparr>) ?before;
                (st2, acts2) = onData exampleParse st1 ?after
            in (st2, acts1 @ [LogParseError (problematicLine (trim '' {nope ''))] @ acts2))
      = (\<lparr>fullResponse = ''Hello'', chunkCount = 2, contentExtracted = False, buffer = []\<rparr>,
         [Emit (MessageChunk (JStr ''Hel'') False JUndefined), LogParseError ''{nope'',
          Emit (MessageChunk (JStr ''lo'') False JUndefined)])"
    by code_simp
  from C8_malformed_segment_skipped[where segment = "'' {nope ''" and parse = exampleParse
      and before = ?before and st = initialState and chunk = ?chunk and after = ?after,
      OF h1 h2 h3 h4 h5]
  have "onData exampleParse initialState ?chunk =
      (let (st1, acts1) = onData exampleParse (initialState\<lparr>buffer := []\<rparr>) ?before;
           (st2, acts2) = onData exampleParse st1 ?after
       in (st2, acts1 @ [LogParseError (problematicLine (trim '' {nope ''))] @ acts2))" .
  also note r
  finally show ?thesis .
qed

text \<open>
  C1. Let \<^verbatim>\<open>JSON.parse\<close> read the three lines of the scenario as the objects they denote.
  Fed the chunks \<^verbatim>\<open>{"response":"Hel"}\<close>, \<^verbatim>\<open>{"response":"lo"}\<close> and \<^verbatim>\<open>{"done":true}\<close>, each
  ended by a newline, the handler emits the fragments \<^verbatim>\<open>Hel\<close> and \<^verbatim>\<open>lo\<close> in that order
  with \<^verbatim>\<open>done: false\<close>, then calls \<^verbatim>\<open>processCompletedResponse\<close> once, with the accumulated
  text \<^verbatim>\<open>Hello\<close>. Whatever the hashtag service answers and whenever the completion
  settles, the client receives the two fragments followed by exactly one event with
  \<^verbatim>\<open>done: true\<close>, and nothing after it.
\<close>

theorem C1_three_chunks:
  assumes p1: \<open>parse ''{"response":"Hel"}'' = Some (JObj [(''response'', JStr ''Hel'')])\<close>
    and p2: \<open>parse ''{"response":"lo"}'' = Some (JObj [(''response'', JStr ''lo'')])\<close>
    and p3: \<open>parse ''{"done":true}'' = Some (JObj [(''done'', JBool True)])\<close>
  shows \<open>feed parse initialState
            [''{"response":"Hel"}\<newline>'', ''{"response":"lo"}\<newline>'', ''{"done":true}\<newline>'']
          = (\<lparr>fullResponse = ''Hello'', chunkCount = 2, contentExtracted = False, buffer = []\<rparr>,
             [Emit (MessageChunk (JStr ''Hel'') False JUndefined),
              Emit (MessageChunk (JStr ''lo'') False JUndefined),
              Completed ''Hello''])
        \<and> (\<exists>tags. clientTrace parse extracted hashtags initialState []
              [(''{"response":"Hel"}\<newline>'', b1), (''{"response":"lo"}\<newline>'', b2),
               (''{"done":true}\<newline>'', b3)]
            = [MessageChunk (JStr ''Hel'') False JUndefined,
               MessageChunk (JStr ''lo'') False JUndefined,
               MessageChunk (JStr []) True tags])\<close>
proof -
  let ?s1 = "\<lparr>fullResponse = ''Hel'', chunkCount = 1, contentExtracted = False, buffer = []\<rparr>"
  let ?s2 = "\<lparr>fullResponse = ''Hello'', chunkCount = 2, contentExtracted = False, buffer = []\<rparr>"
  have t1: \<open>trim ''{"response":"Hel"}'' = ''{"response":"Hel"}''\<close>
    and t2: \<open>trim ''{"response":"lo"}'' = ''{"response":"lo"}''\<close>
    and t3: \<open>trim ''{"done":true}'' = ''{"done":true}''\<close>
    by code_simp+
  have o1: \<open>onData parse initialState ''{"response":"Hel"}\<newline>''
      = (?s1, [Emit (MessageChunk (JStr ''Hel'') False JUndefined)])\<close>
    by (simp add: onData_lines initialState_def newline_def stepLine_def t1 handleLine_def p1)
  have o2: \<open>onData parse ?s1 ''{"response":"lo"}\<newline>''
      = (?s2, [Emit (MessageChunk (JStr ''lo'') False JUndefined)])\<close>
    by (simp add: onData_lines newline_def stepLine_def t2 handleLine_def p2)
  have o3: \<open>onData parse ?s2 ''{"done":true}\<newline>'' = (?s2, [Completed ''Hello''])\<close>
    by (simp add: onData_lines newline_def stepLine_def t3 handleLine_def p3)
  have fed: \<open>feed parse initialState
            [''{"response":"Hel"}\<newline>'', ''{"response":"lo"}\<newline>'', ''{"done":true}\<newline>'']
          = (?s2, [Emit (MessageChunk (JStr ''Hel'') False JUndefined),
                   Emit (MessageChunk (JStr ''lo'') False JUndefined), Completed ''Hello''])\<close>
    by (simp only: feed.simps o1 o2 o3 Let_def prod.case append.simps)
  obtain tags where fin: "processCompletedResponse extracted hashtags ''Hello''
      = [MessageChunk (JStr []) True tags]"
    by (cases "extracted ''Hello''") (auto simp: processCompletedResponse_def)
  have \<open>clientTrace parse extracted hashtags initialState []
              [(''{"response":"Hel"}\<newline>'', b1), (''{"response":"lo"}\<newline>'', b2),
               (''{"done":true}\<newline>'', b3)]
            = [MessageChunk (JStr ''Hel'') False JUndefined,
               MessageChunk (JStr ''lo'') False JUndefined,
               MessageChunk (JStr []) True tags]\<close>
  proof -
    have e: "emitted [Emit (MessageChunk (JStr ''Hel'') False JUndefined)]
          = [MessageChunk (JStr ''Hel'') False JUndefined]"
      "emitted [Emit (MessageChunk (JStr ''lo'') False JUndefined)]
          = [MessageChunk (JStr ''lo'') False JUndefined]"
      "emitted [Completed ''Hello''] = []"
      "started [Emit (MessageChunk (JStr ''Hel'') False JUndefined)] = []"
      "started [Emit (MessageChunk (JStr ''lo'') False JUndefined)] = []"
      "started [Completed ''Hello''] = [''Hello'']"
      by (simp_all add: emitted_def started_def)
    show ?thesis
      by (simp only: clientTrace.simps o1 o2 o3 Let_def prod.case e fin append.simps
          list.map concat.simps if_cancel split: if_split)
  qed
  with fed show ?thesis
    by blast
qed

theorem C1_three_chunks_witness:
  \<open>feed exampleParse initialState
     [''{"response":"Hel"}\<newline>'', ''{"response":"lo"}\<newline>'', ''{"done":true}\<newline>'']
   = (\<lparr>fullResponse = ''Hello'', chunkCount = 2, contentExtracted = False, buffer = []\<rparr>,
      [Emit (MessageChunk (JStr ''Hel'') False JUndefined),
       Emit (MessageChunk (JStr ''lo'') False JUndefined),
       Completed ''Hello''])\<close>
proof -
  have p1: \<open>exampleParse ''{"response":"Hel"}'' = Some (JObj [(''response'', JStr ''Hel'')])\<close>
    and p2: \<open>exampleParse ''{"response":"lo"}'' = Some (JObj [(''response'', JStr ''lo'')])\<close>
    and p3: \<open>exampleParse ''{"done":true}'' = Some (JObj [(''done'', JBool True)])\<close>
    by code_simp+
  from C1_three_chunks[OF p1 p2 p3] show ?thesis
    by blast
qed

text \<open>
  C2, as stated, fails. With the synonym \<^verbatim>\<open>javascript\<close> to \<^verbatim>\<open>js\<close>,
  \<open>generateUserMessageHashtags\<close> on a message with \<^verbatim>\<open>#javascript\<close> returns \<^verbatim>\<open>#js\<close>: the
  replacement is made by the resolver, after the filter, and nothing filters what the
  resolver returns. With empty tables, \<open>extractHashtags\<close> on the text
  \<^verbatim>\<open>#HASHTAGS: ##ab\<close> returns the tag \<^verbatim>\<open>#ab\<close>: the filter removes one \<^verbatim>\<open>#\<close> and sees the
  three characters \<^verbatim>\<open>#ab\<close>, the final \<open>formatHashtags\<close> removes both. Both returned tags
  are words that \<open>shouldExcludeWord\<close> excludes.
\<close>

theorem C2_counterexample:
  "generateUserMessageHashtags (\<lambda>cmp ws. ws)
     \<lparr>blocked_tags = Inr [], tag_synonyms = Inr [(''javascript'', ''js'')]\<rparr> 0
     ''more about #javascript'' 5 = [''#js'']
   \<and> shouldExcludeWord (stripHash ''#js'') \<and> length (stripHash ''#js'') < 3
   \<and> snd (extractHashtags (\<lambda>cmp ws. ws) \<lparr>blocked_tags = Inr [], tag_synonyms = Inr []\<rparr>
          ''#HASHTAGS: ##ab'' 5) = [''#ab'']
   \<and> shouldExcludeWord (stripHash ''#ab'') \<and> length (stripHash ''#ab'') < 3"
  by code_simp

text \<open>
  C2, amended. The filter is applied to the tags taken from the text, before the resolver,
  and not to what the resolver returns. Whatever order the engine's sort gives the
  keywords, a tag returned by \<open>generateUserMessageHashtags\<close>, for every message, or by
  \<open>extractHashtags\<close>, for every text in which no tag found by
  \<open>extractHashtagsFromResponse\<close> starts with two \<^verbatim>\<open>#\<close>, is not excluded by
  \<open>shouldExcludeWord\<close> once its \<^verbatim>\<open>#\<close> is removed, unless it is the formatted value that
  the lookup of the synonym table returned for some key. The texts without a marker are
  among those texts: an inline hashtag has a single \<^verbatim>\<open>#\<close>. A word that
  \<open>shouldExcludeWord\<close> does not exclude is, trimmed and lower-cased, not on the stopword
  list, at least 3 characters long and not purely numeric.
\<close>

theorem C2_filter_before_resolver:
  assumes "\<forall>cmp ws. set (engineSort cmp ws) \<subseteq> set ws"
  shows "(\<forall>tag \<in> set (generateUserMessageHashtags engineSort d pick message maxTags).
       \<not> shouldExcludeWord (stripHash tag)
       \<or> (\<exists>rows k b. tag_synonyms d = Inr rows
             \<and> lookupSynonym (buildSynonyms rows) k = Some b
             \<and> tag = formatClean (CHR ''#'' # b)))
   \<and> ((\<forall>found \<in> set (snd (extractHashtagsFromResponse response)).
          \<not> startsWithHash (stripHash found)) \<longrightarrow>
        (\<forall>tag \<in> set (snd (extractHashtags engineSort d response maxTags)).
           \<not> shouldExcludeWord (stripHash tag)
           \<or> (\<exists>rows k b. tag_synonyms d = Inr rows
                 \<and> lookupSynonym (buildSynonyms rows) k = Some b
                 \<and> tag = formatClean (CHR ''#'' # b))))
   \<and> (\<not> (\<exists>lead m afterColon. response = lead @ m @ afterColon \<and> isMarker m) \<longrightarrow>
        (\<forall>found \<in> set (snd (extractHashtagsFromResponse response)).
           \<not> startsWithHash (stripHash found)))
   \<and> (\<forall>word. \<not> shouldExcludeWord word \<longrightarrow>
         trim (toLowerCase word) \<notin> set COMMON_WORDS_TO_EXCLUDE
         \<and> length (trim (toLowerCase word)) \<ge> 3
         \<and> \<not> list_all isDigit (trim (toLowerCase word)))"
proof -
  let ?ok = "\<lambda>tag. \<not> shouldExcludeWord (stripHash tag)
       \<or> (\<exists>rows k b. tag_synonyms d = Inr rows
             \<and> lookupSynonym (buildSynonyms rows) k = Some b
             \<and> tag = formatClean (CHR ''#'' # b))"
  have user: "?ok tag"
    if t: "tag \<in> set (generateUserMessageHashtags engineSort d pick message maxTags)" for tag
  proof (cases "userCandidates engineSort message maxTags")
    case None
    with t have "tag \<in> set (generateFallbackHashtags pick message)"
      by (auto simp: generateUserMessageHashtags_def split: if_splits)
    then show ?thesis
      by (simp add: generateFallbackHashtags_pass)
  next
    case (Some cands)
    have "\<forall>c \<in> set cands. plainTag c \<and> \<not> shouldExcludeWord (trim (stripHash c))"
      using userCandidates_plain[OF assms Some] userCandidates_pass[OF assms Some] by blast
    from resolveAndFormat_pass[OF this, of d] obtain tags where
      r: "resolveAndFormat d cands = Inr tags" and ok: "\<forall>tag \<in> set tags. ?ok tag"
      by blast
    from t Some r have "tag \<in> set tags"
      by (auto simp: generateUserMessageHashtags_def split: if_splits)
    with ok show ?thesis
      by blast
  qed
  have resp: "?ok tag"
    if single: "\<forall>found \<in> set (snd (extractHashtagsFromResponse response)).
          \<not> startsWithHash (stripHash found)"
      and t: "tag \<in> set (snd (extractHashtags engineSort d response maxTags))" for tag
  proof -
    obtain content cands where
      c: "responseCandidates engineSort response maxTags = (content, cands)"
      by (cases "responseCandidates engineSort response maxTags")
    let ?nb = "filterBlockedTags d cands"
    have "\<forall>c \<in> set cands. plainTag c \<and> \<not> shouldExcludeWord (trim (stripHash c))"
      using responseCandidates_plain[OF assms single, of _ maxTags]
        responseCandidates_pass[of _ engineSort response maxTags] c
      by simp
    with set_filterBlockedTags[of d cands]
    have "\<forall>c \<in> set ?nb. plainTag c \<and> \<not> shouldExcludeWord (trim (stripHash c))"
      by blast
    from resolveAndFormat_pass[OF this, of d] obtain tags where
      r: "resolveAndFormat d ?nb = Inr tags" and ok: "\<forall>tag \<in> set tags. ?ok tag"
      by blast
    from t c r have "tag \<in> set tags"
      by (auto simp: extractHashtags_def split: if_splits)
    with ok show ?thesis
      by blast
  qed
  have inline: "\<not> startsWithHash (stripHash found)"
    if "\<not> (\<exists>lead m afterColon. response = lead @ m @ afterColon \<and> isMarker m)"
      and f: "found \<in> set (snd (extractHashtagsFromResponse response))" for found
  proof -
    from that(1) findMarker_None_iff[of "[]" response] have "findMarker [] response = None"
      by blast
    from inline_single_hash[OF this f] show ?thesis .
  qed
  have meaning: "trim (toLowerCase word) \<notin> set COMMON_WORDS_TO_EXCLUDE
         \<and> length (trim (toLowerCase word)) \<ge> 3
         \<and> \<not> list_all isDigit (trim (toLowerCase word))"
    if "\<not> shouldExcludeWord word" for word
    using that by (rule not_excluded_meaning)
  show ?thesis
    apply (intro conjI)
    subgoal by (intro ballI) (rule user)
    subgoal by (intro impI ballI) (rule resp)
    subgoal by (intro impI ballI) (rule inline)
    subgoal by (intro allI impI) (rule meaning)
    done
qed

theorem C2_filter_before_resolver_witness:
  "generateUserMessageHashtags (\<lambda>cmp ws. ws)
     \<lparr>blocked_tags = Inr [''Spam''], tag_synonyms = Inl DbError\<rparr> 0
     ''Tell me about #graphql caching #of #42'' 5 = [''#graphql'']
   \<and> \<not> shouldExcludeWord (stripHash ''#graphql'')
   \<and> snd (extractHashtagsFromResponse ''Caching helps. #HASHTAGS: the, #Caching 7, cloud'')
       = [''#the'', ''#Caching'', ''#7'', ''#cloud'']
   \<and> snd (extractHashtags (\<lambda>cmp ws. ws)
          \<lparr>blocked_tags = Inr [''Spam''], tag_synonyms = Inl DbError\<rparr>
          ''Caching helps. #HASHTAGS: the, #Caching 7, cloud'' 5) = [''#Caching'', ''#cloud'']
   \<and> \<not> shouldExcludeWord (stripHash ''#Caching'')
   \<and> \<not> shouldExcludeWord (stripHash ''#cloud'')
   \<and> snd (extractHashtagsFromResponse ''Great #Kubernetes talk'') = [''#Kubernetes'']
   \<and> \<not> startsWithHash (stripHash ''#Kubernetes'')"
proof -
  let ?d = "\<lparr>blocked_tags = Inr [''Spam''], tag_synonyms = Inl DbError\<rparr>"
  let ?message = "''Tell me about #graphql caching #of #42''"
  let ?response = "''Caching helps. #HASHTAGS: the, #Caching 7, cloud''"
  let ?inline = "''Great #Kubernetes talk''"
  have perm: "\<forall>cmp ws. set ((\<lambda>cmp ws. ws) cmp ws) \<subseteq> set (ws :: string list)"
    by simp
  have u: "generateUserMessageHashtags (\<lambda>cmp ws. ws) ?d 0 ?message 5 = [''#graphql'']"
    by code_simp
  have f: "snd (extractHashtagsFromResponse ?response)
      = [''#the'', ''#Caching'', ''#7'', ''#cloud'']"
    by code_simp
  have e: "snd (extractHashtags (\<lambda>cmp ws. ws) ?d ?response 5) = [''#Caching'', ''#cloud'']"
    by code_simp
  have single: "\<forall>found \<in> set (snd (extractHashtagsFromResponse ?response)).
      \<not> startsWithHash (stripHash found)"
    unfolding f by (simp add: startsWithHash_def stripHash_def)
  have s: "\<not> (\<exists>rows. tag_synonyms ?d = Inr rows)"
    by simp
  have g: "snd (extractHashtagsFromResponse ?inline) = [''#Kubernetes'']"
    by code_simp
  have "findMarker [] ?inline = None"
    by code_simp
  with findMarker_None_iff[of "[]" ?inline]
  have none: "\<not> (\<exists>lead m afterColon. ?inline = lead @ m @ afterColon \<and> isMarker m)"
    by blast
  from C2_filter_before_resolver[OF perm, of ?d 0 ?message 5 ?response] u e single s
  have a: "\<not> shouldExcludeWord (stripHash ''#graphql'')
      \<and> \<not> shouldExcludeWord (stripHash ''#Caching'')
      \<and> \<not> shouldExcludeWord (stripHash ''#cloud'')"
    by simp
  from C2_filter_before_resolver[OF perm, of ?d 0 ?message 5 ?inline] none g
  have b: "\<not> startsWithHash (stripHash ''#Kubernetes'')"
    by simp
  from u f e g a b show ?thesis
    by (intro conjI) simp_all
qed

text \<open>
  C3, as stated, fails. In the section \<^verbatim>\<open>foo, #bar-baz\<close> the extractor keeps the token
  \<^verbatim>\<open>foo\<close>, which has no \<^verbatim>\<open>#\<close>, as \<^verbatim>\<open>#foo\<close>, and keeps \<^verbatim>\<open>#bar-baz\<close> whole, where
  the specification's scan (\<open>specMarkerTags\<close>) gives \<^verbatim>\<open>#bar\<close> alone. A marker in the
  middle of a line starts a section too, and the content then loses it.
\<close>

theorem C3_counterexample:
  "extractHashtagsFromResponse ''#HASHTAGS: foo, #bar-baz'' = ([], [''#foo'', ''#bar-baz''])
   \<and> specMarkerTags '' foo, #bar-baz'' = [''#bar'']
   \<and> snd (extractHashtagsFromResponse ''#HASHTAGS: foo, #bar-baz'') \<noteq> specMarkerTags '' foo, #bar-baz''
   \<and> extractHashtagsFromResponse ''Use #hashtags: often #cool'' = (''Use'', [''#often'', ''#cool''])"
  by code_simp

text \<open>
  C3, amended. When no part of the text is a marker, the content returned is the text
  unchanged and the tags are the distinct inline hashtags. When some part is a marker
  (at any position of a line), the text splits in one way into a leading part that no
  earlier marker begins in, the first marker, the section and a rest, the section ending
  at its first end: where the text ends, before a final newline or before a blank line.
  For that split the content returned is the leading part and the rest, joined and
  trimmed, and the tags are all the tokens of the section between commas and whitespace
  (\<open>tokensOf\<close>), each kept whole, with a \<^verbatim>\<open>#\<close> put in front of those that do not start
  with one: every tag starts with \<^verbatim>\<open>#\<close> and holds no comma and no whitespace.
\<close>

theorem C3_marker_section:
  "(\<not> (\<exists>lead m afterColon. response = lead @ m @ afterColon \<and> isMarker m) \<longrightarrow>
      extractHashtagsFromResponse response = (response, uniqSeen [] (matchHashtags response)))
   \<and> ((\<exists>lead m afterColon. response = lead @ m @ afterColon \<and> isMarker m) \<longrightarrow>
        (\<exists>lead m sec rest.
            response = lead @ m @ sec @ rest \<and> isMarker m
            \<and> (\<forall>lead' m' after'. response = lead' @ m' @ after' \<and> isMarker m'
                  \<longrightarrow> length lead \<le> length lead')
            \<and> sectionEnd rest \<and> (\<forall>n < length sec. \<not> sectionEnd (drop n (sec @ rest)))
            \<and> extractHashtagsFromResponse response
                = (trim (lead @ rest), map prefixHash (tokensOf sec))))
   \<and> (\<forall>lead m sec rest.
        response = lead @ m @ sec @ rest \<and> isMarker m
        \<and> (\<forall>lead' m' after'. response = lead' @ m' @ after' \<and> isMarker m'
              \<longrightarrow> length lead \<le> length lead')
        \<and> sectionEnd rest \<and> (\<forall>n < length sec. \<not> sectionEnd (drop n (sec @ rest)))
        \<longrightarrow> extractHashtagsFromResponse response
              = (trim (lead @ rest), map prefixHash (tokensOf sec)))
   \<and> (\<forall>tag \<in> set (map prefixHash (tokensOf sectionText)).
         startsWithHash tag \<and> (\<forall>x \<in> set tag. \<not> isTagSeparator x))"
proof -
  have none: "extractHashtagsFromResponse response = (response, uniqSeen [] (matchHashtags response))"
    if "\<not> (\<exists>lead m afterColon. response = lead @ m @ afterColon \<and> isMarker m)"
  proof -
    from that findMarker_None_iff[of "[]" response] have "findMarker [] response = None"
      by blast
    then show ?thesis
      by (simp add: extractHashtagsFromResponse_def)
  qed
  have some: "\<exists>lead m sec rest.
            response = lead @ m @ sec @ rest \<and> isMarker m
            \<and> (\<forall>lead' m' after'. response = lead' @ m' @ after' \<and> isMarker m'
                  \<longrightarrow> length lead \<le> length lead')
            \<and> sectionEnd rest \<and> (\<forall>n < length sec. \<not> sectionEnd (drop n (sec @ rest)))
            \<and> extractHashtagsFromResponse response
                = (trim (lead @ rest), map prefixHash (tokensOf sec))"
    if "\<exists>lead m afterColon. response = lead @ m @ afterColon \<and> isMarker m"
  proof -
    from that findMarker_None_iff[of "[]" response] have "findMarker [] response \<noteq> None"
      by blast
    then obtain lead sec rest where f: "findMarker [] response = Some (lead, sec, rest)"
      by (cases "findMarker [] response") auto
    from findMarker_found[OF f] extractHashtagsFromResponse_marker[OF f] show ?thesis
      by blast
  qed
  have determined: "extractHashtagsFromResponse response
              = (trim (lead @ rest), map prefixHash (tokensOf sec))"
    if "response = lead @ m @ sec @ rest" "isMarker m"
      "\<forall>lead' m' after'. response = lead' @ m' @ after' \<and> isMarker m'
              \<longrightarrow> length lead \<le> length lead'"
      "sectionEnd rest" "\<forall>n < length sec. \<not> sectionEnd (drop n (sec @ rest))"
    for lead m sec rest
    using findMarker_determined[OF that] by (rule extractHashtagsFromResponse_marker)
  have tags: "startsWithHash tag \<and> (\<forall>x \<in> set tag. \<not> isTagSeparator x)"
    if "tag \<in> set (map prefixHash (tokensOf sectionText))" for tag
    using that prefixHash_token[of _ sectionText] by auto
  show ?thesis
    apply (intro conjI)
    subgoal by (intro impI) (rule none)
    subgoal by (intro impI) (rule some)
    subgoal by (intro allI impI, elim conjE, rule determined)
    subgoal by (intro ballI) (rule tags)
    done
qed

theorem C3_marker_section_witness:
  "extractHashtagsFromResponse ''Use #hashtags: often #cool\<newline>\<newline>more''
     = (''Use \<newline>\<newline>more'', [''#often'', ''#cool''])
   \<and> isMarker ''#hashtags:'' \<and> sectionEnd ''\<newline>\<newline>more''
   \<and> extractHashtagsFromResponse ''Great talk about #Kubernetes and #scaling today''
     = (''Great talk about #Kubernetes and #scaling today'', [''#Kubernetes'', ''#scaling''])"
proof -
  let ?r1 = "''Use #hashtags: often #cool\<newline>\<newline>more''"
  let ?r2 = "''Great talk about #Kubernetes and #scaling today''"
  have f1: "findMarker [] ?r1 = Some (''Use '', '' often #cool'', ''\<newline>\<newline>more'')"
    by code_simp
  have shape: "?r1 = ''Use '' @ ''#hashtags:'' @ '' often #cool'' @ ''\<newline>\<newline>more''"
    by simp
  have lower: "toLowerCase ''hashtags'' = ''hashtags''"
    by code_simp
  have "''#hashtags:'' = CHR ''#'' # [] @ ''hashtags'' @ [] @ '':''
      \<and> list_all isWhiteSpace [] \<and> toLowerCase ''hashtags'' = ''hashtags''
      \<and> list_all isWhiteSpace []"
    using lower by simp
  then have marker: "isMarker ''#hashtags:''"
    unfolding isMarker_def by blast
  from findMarker_found[OF f1] have
    first: "\<forall>lead' m' after'. ?r1 = lead' @ m' @ after' \<and> isMarker m'
        \<longrightarrow> length ''Use '' \<le> length lead'"
    and fin: "sectionEnd ''\<newline>\<newline>more''"
    and minimal: "\<forall>n < length '' often #cool''.
        \<not> sectionEnd (drop n ('' often #cool'' @ ''\<newline>\<newline>more''))"
    by blast+
  have t1: "(trim (''Use '' @ ''\<newline>\<newline>more''), map prefixHash (tokensOf '' often #cool''))
      = (''Use \<newline>\<newline>more'', [''#often'', ''#cool''])"
    by code_simp
  from C3_marker_section[of ?r1 "[]"] shape marker first fin minimal
  have "extractHashtagsFromResponse ?r1
      = (trim (''Use '' @ ''\<newline>\<newline>more''), map prefixHash (tokensOf '' often #cool''))"
    by blast
  with t1 have a: "extractHashtagsFromResponse ?r1
      = (''Use \<newline>\<newline>more'', [''#often'', ''#cool''])"
    by (simp only:)
  have "findMarker [] ?r2 = None"
    by code_simp
  with findMarker_None_iff[of "[]" ?r2]
  have none: "\<not> (\<exists>lead m afterColon. ?r2 = lead @ m @ afterColon \<and> isMarker m)"
    by blast
  have t2: "uniqSeen [] (matchHashtags ?r2) = [''#Kubernetes'', ''#scaling'']"
    by code_simp
  from C3_marker_section[of ?r2 "[]"] none
  have "extractHashtagsFromResponse ?r2 = (?r2, uniqSeen [] (matchHashtags ?r2))"
    by blast
  with t2 have b: "extractHashtagsFromResponse ?r2 = (?r2, [''#Kubernetes'', ''#scaling''])"
    by (simp only:)
  from a marker fin b show ?thesis
    by (intro conjI)
qed

end
